theory Spec2Isabelle
  imports Complex_Main
begin

section \<open>Data model\<close>

text \<open>
  Coordinates are the JavaScript objects \<^verbatim>\<open>{x, y}\<close>; they are never mutated after they
  are built, so a pair of integers stands for one.
\<close>

type_synonym coord = "int \<times> int"

text \<open>
  A grid cell carries the four flags the algorithm writes
  (\<^verbatim>\<open>wall\<close>, \<^verbatim>\<open>visited\<close>, \<^verbatim>\<open>current\<close>, \<^verbatim>\<open>path\<close>) and the 3D scene reads
  (\<^verbatim>\<open>cell.current\<close>, \<^verbatim>\<open>cell.path\<close>).
\<close>

record cell =
  wall :: bool
  visited :: bool
  current :: bool
  path :: bool

text \<open>The argument of \<^verbatim>\<open>setCell\<close>: an object literal that may name any of the four flags.\<close>

record partialState =
  p_wall :: "bool option"
  p_visited :: "bool option"
  p_current :: "bool option"
  p_path :: "bool option"

record maze =
  width :: int
  height :: int
  grid :: "coord \<Rightarrow> cell"

datatype js_error = TypeError

datatype js_value = JBool bool | JNum nat | JCoord int int | JNull

text \<open>An object literal: its fields in the order they are written.\<close>

type_synonym js_object = "(string \<times> js_value) list"

datatype js_number = Num real | Infinity

section \<open>MazeUtils\<close>

definition isValidCoordinate :: "int \<Rightarrow> int \<Rightarrow> int \<Rightarrow> int \<Rightarrow> bool" where
  "isValidCoordinate x y w h \<longleftrightarrow> x \<ge> 0 \<and> x < w \<and> y \<ge> 0 \<and> y < h"

section \<open>Grid model\<close>

text \<open>
  The maze object that owns the grid and offers \<^verbatim>\<open>getCell\<close> and \<^verbatim>\<open>setCell\<close>
  (\<^verbatim>\<open>js/maze/generator.js\<close>) is not among the sources; the 3D scene reads its
  \<^verbatim>\<open>width\<close>, \<^verbatim>\<open>height\<close> and \<^verbatim>\<open>grid[y][x]\<close>. The specification describes the grid as
  a width, a height and a mapping from (x,y) to a cell. What the maze object does with a
  coordinate outside the grid is not specified; the algorithm reads cells only after a bounds
  check, and the results below about whole runs take the start cell (1,1) to be inside the grid,
  which keeps every write inside it.
\<close>

text \<open>
  Modelled from the spec: \<^verbatim>\<open>getCell\<close> of the missing maze object, the specification's
  \<^verbatim>\<open>get(x,y) -> Cell\<close>.
\<close>

definition getCell :: "maze \<Rightarrow> int \<Rightarrow> int \<Rightarrow> cell" where
  "getCell m x y = grid m (x, y)"

text \<open>
  Modelled from the spec: the merge of a partial state into a cell that the missing
  \<^verbatim>\<open>setCell\<close> performs; a field that the partial state does not name keeps its value.
\<close>

definition merge_cell :: "cell \<Rightarrow> partialState \<Rightarrow> cell" where
  "merge_cell c p =
     \<lparr> wall = (case p_wall p of None \<Rightarrow> wall c | Some b \<Rightarrow> b),
       visited = (case p_visited p of None \<Rightarrow> visited c | Some b \<Rightarrow> b),
       current = (case p_current p of None \<Rightarrow> current c | Some b \<Rightarrow> b),
       path = (case p_path p of None \<Rightarrow> path c | Some b \<Rightarrow> b) \<rparr>"

text \<open>
  Modelled from the spec: \<^verbatim>\<open>setCell\<close> of the missing maze object, the specification's
  \<^verbatim>\<open>set(x,y, partialState)\<close> merging fields.
\<close>

definition setCell :: "maze \<Rightarrow> int \<Rightarrow> int \<Rightarrow> partialState \<Rightarrow> maze" where
  "setCell m x y p = m\<lparr>grid := (grid m)((x, y) := merge_cell (grid m (x, y)) p)\<rparr>"

text \<open>The literal \<^verbatim>\<open>{ wall: w, visited: v, current: c, path: p }\<close> of the algorithm.\<close>

definition cellState :: "bool \<Rightarrow> bool \<Rightarrow> bool \<Rightarrow> bool \<Rightarrow> partialState" where
  "cellState w v c p = \<lparr> p_wall = Some w, p_visited = Some v, p_current = Some c, p_path = Some p \<rparr>"

section \<open>RecursiveBacktrackingAlgorithm\<close>

text \<open>
  The fields of the class instance. \<^verbatim>\<open>this.current\<close> is \<^verbatim>\<open>null\<close> after construction
  and after \<^verbatim>\<open>reset()\<close>, hence an option; \<^verbatim>\<open>this.config.stepSize\<close> is the only
  configuration value the algorithm computes with.
\<close>

record rb_state =
  maze :: maze
  stepSize :: int
  stack :: "coord list"
  this_current :: "coord option"
  isComplete :: bool
  stepCount :: nat

text \<open>
  The constructor merges the caller's configuration over
  \<^verbatim>\<open>MazeConfig.algorithms.recursive\<close>, whose \<^verbatim>\<open>stepSize\<close> is 2.
\<close>

definition constructor :: "maze \<Rightarrow> int option \<Rightarrow> rb_state" where
  "constructor m cfg =
     \<lparr> maze = m,
       stepSize = (case cfg of None \<Rightarrow> 2 | Some k \<Rightarrow> k),
       stack = [],
       this_current = None,
       isComplete = False,
       stepCount = 0 \<rparr>"

definition initialize :: "rb_state \<Rightarrow> rb_state" where
  "initialize s =
     s\<lparr> this_current := Some (1, 1),
        maze := setCell (maze s) 1 1 (cellState False True True False),
        stack := [],
        isComplete := False,
        stepCount := 0 \<rparr>"

definition getUnvisitedNeighbors :: "rb_state \<Rightarrow> int \<Rightarrow> int \<Rightarrow> coord list" where
  "getUnvisitedNeighbors s x y =
     (let step = stepSize s;
          directions = [(x, y - step), (x + step, y), (x, y + step), (x - step, y)]
      in filter (\<lambda>dir. isValidCoordinate (fst dir) (snd dir) (width (maze s)) (height (maze s))
                        \<and> \<not> visited (getCell (maze s) (fst dir) (snd dir)))
                directions)"

definition coord_value :: "coord option \<Rightarrow> js_value" where
  "coord_value c = (case c of None \<Rightarrow> JNull | Some (x, y) \<Rightarrow> JCoord x y)"

text \<open>The tail of \<^verbatim>\<open>step()\<close>: \<^verbatim>\<open>this.stepCount++\<close> and the returned object.\<close>

definition step_return :: "rb_state \<Rightarrow> js_object \<times> rb_state" where
  "step_return s =
     (let s' = s\<lparr>stepCount := stepCount s + 1\<rparr>
      in ([(''complete'', JBool (isComplete s')),
           (''current'', coord_value (this_current s')),
           (''step'', JNum (stepCount s')),
           (''stackSize'', JNum (length (stack s')))], s'))"

text \<open>
  The three branches of \<^verbatim>\<open>step()\<close>. In the first, taken when an unvisited neighbour
  exists, the wall cell lies half way between the current cell and the chosen neighbour. The two
  differ by \<^verbatim>\<open>stepSize\<close> along one axis, so the halving is exact when \<^verbatim>\<open>stepSize\<close> is
  even, as the configured 2 is. With an odd \<^verbatim>\<open>stepSize\<close> the JavaScript coordinate is a
  fraction and what the grid does with it is not in the sources: the results that involve this
  branch take \<^verbatim>\<open>stepSize\<close> to be even.
\<close>

definition carve :: "rb_state \<Rightarrow> coord \<Rightarrow> coord \<Rightarrow> rb_state" where
  "carve s cur nxt =
     (let wallX = fst cur + (fst nxt - fst cur) div 2;
          wallY = snd cur + (snd nxt - snd cur) div 2;
          m1 = setCell (maze s) wallX wallY (cellState False True False True);
          m2 = setCell m1 (fst nxt) (snd nxt) (cellState False True False False);
          m3 = setCell m2 (fst cur) (snd cur) (cellState False True False True);
          m4 = setCell m3 (fst nxt) (snd nxt) (cellState False True True False)
      in s\<lparr> maze := m4, stack := stack s @ [cur], this_current := Some nxt \<rparr>)"

definition backtrack :: "rb_state \<Rightarrow> coord \<Rightarrow> rb_state" where
  "backtrack s cur =
     (let m1 = setCell (maze s) (fst cur) (snd cur) (cellState False True False True);
          top = last (stack s);
          m2 = setCell m1 (fst top) (snd top) (cellState False True True True)
      in s\<lparr> maze := m2, stack := butlast (stack s), this_current := Some top \<rparr>)"

definition finish :: "rb_state \<Rightarrow> coord \<Rightarrow> rb_state" where
  "finish s cur =
     s\<lparr> maze := setCell (maze s) (fst cur) (snd cur) (cellState False True False True),
        isComplete := True \<rparr>"

text \<open>
  One call of \<^verbatim>\<open>step()\<close>. The argument \<open>rnd\<close> is the value \<^verbatim>\<open>Math.random()\<close> yields
  when this call draws one. Reading a property of \<^verbatim>\<open>null\<close> or \<^verbatim>\<open>undefined\<close>
  (no current cell, or an index outside the neighbour array) throws a \<^verbatim>\<open>TypeError\<close>.
\<close>

definition step :: "real \<Rightarrow> rb_state \<Rightarrow> js_error + (js_object \<times> rb_state)" where
  "step rnd s =
     (if isComplete s then
        Inr ([(''complete'', JBool True), (''current'', coord_value (this_current s))], s)
      else case this_current s of
        None \<Rightarrow> Inl TypeError
      | Some cur \<Rightarrow>
          let neighbors = getUnvisitedNeighbors s (fst cur) (snd cur) in
          if length neighbors > 0 then
            let i = \<lfloor>rnd * real (length neighbors)\<rfloor> in
            if 0 \<le> i \<and> i < int (length neighbors)
            then Inr (step_return (carve s cur (neighbors ! nat i)))
            else Inl TypeError
          else if length (stack s) > 0 then Inr (step_return (backtrack s cur))
          else Inr (step_return (finish s cur)))"

text \<open>
  \<^verbatim>\<open>generate(progressCallback, animationSpeed)\<close>. The flag \<open>cb\<close> says whether a
  callback was passed; its invocations are recorded as the list of their argument triples, and
  the callback is taken to leave the algorithm's state alone. The delay between steps and the
  elapsed time are not part of the model. The loop runs while \<^verbatim>\<open>!this.isComplete\<close>. The
  list of random draws holds one draw for each iteration, used or not, so that the runs of the
  model over all lists cover every run of the code; the loop is still running (\<open>None\<close>) when
  the draws are used up.
\<close>

type_synonym progress_call = "js_number \<times> nat \<times> js_object"

record gen_stats =
  algorithm :: string
  steps :: nat
  cellsProcessed :: nat

definition percentage :: "nat \<Rightarrow> int \<Rightarrow> js_number" where
  "percentage processedCells totalCells =
     (if totalCells = 0 then Infinity
      else Num ((real processedCells / real_of_int totalCells) * 100))"

fun generate_loop ::
  "real list \<Rightarrow> bool \<Rightarrow> int \<Rightarrow> nat \<Rightarrow> progress_call list \<Rightarrow> rb_state \<Rightarrow>
     (js_error + (nat \<times> progress_call list \<times> rb_state)) option" where
  "generate_loop [] cb totalCells processedCells calls s =
     (if isComplete s then Some (Inr (processedCells, calls, s)) else None)"
| "generate_loop (rnd # rnds) cb totalCells processedCells calls s =
     (if isComplete s then Some (Inr (processedCells, calls, s))
      else case step rnd s of
        Inl e \<Rightarrow> Some (Inl e)
      | Inr (result, s') \<Rightarrow>
          let processedCells' = processedCells + 1;
              calls' = (if cb then calls @ [(percentage processedCells' totalCells, stepCount s', result)]
                        else calls)
          in generate_loop rnds cb totalCells processedCells' calls' s')"

definition generate ::
  "real list \<Rightarrow> bool \<Rightarrow> rb_state \<Rightarrow> (js_error + (gen_stats \<times> progress_call list \<times> rb_state)) option" where
  "generate rnds cb s0 =
     (let s = initialize s0;
          totalCells = (width (maze s) * height (maze s)) div 4
      in case generate_loop rnds cb totalCells 0 [] s of
           None \<Rightarrow> None
         | Some (Inl e) \<Rightarrow> Some (Inl e)
         | Some (Inr (processedCells, calls, s')) \<Rightarrow>
             Some (Inr (\<lparr> algorithm = ''recursive'', steps = stepCount s',
                          cellsProcessed = processedCells \<rparr>, calls, s')))"

section \<open>Callers and inputs used to state the results\<close>

text \<open>
  A grid of walls, none of them visited: the grid a generation run starts from (recursive
  backtracking carves its passages through a grid of walls).
\<close>

definition wallGrid :: "int \<Rightarrow> int \<Rightarrow> maze" where
  "wallGrid w h = \<lparr> width = w, height = h,
      grid = (\<lambda>_. \<lparr> wall = True, visited = False, current = False, path = False \<rparr>) \<rparr>"

text \<open>
  A caller that invokes \<^verbatim>\<open>step()\<close> once for each draw of the list and collects the
  returned objects; an exception ends the sequence.
\<close>

fun step_calls :: "real list \<Rightarrow> rb_state \<Rightarrow> js_error + (js_object list \<times> rb_state)" where
  "step_calls [] s = Inr ([], s)"
| "step_calls (rnd # rnds) s =
     (case step rnd s of
        Inl e \<Rightarrow> Inl e
      | Inr (result, s') \<Rightarrow>
          (case step_calls rnds s' of
             Inl e \<Rightarrow> Inl e
           | Inr (results, s'') \<Rightarrow> Inr (result # results, s'')))"

text \<open>The field names, and the \<^verbatim>\<open>complete\<close> fields, of the objects a sequence of calls returned.\<close>

definition field_names :: "js_error + (js_object list \<times> rb_state) \<Rightarrow> string list list option" where
  "field_names r = (case r of Inl e \<Rightarrow> None | Inr (results, s) \<Rightarrow> Some (map (map fst) results))"

definition complete_flags ::
  "js_error + (js_object list \<times> rb_state) \<Rightarrow> js_value option list option" where
  "complete_flags r =
     (case r of Inl e \<Rightarrow> None
      | Inr (results, s) \<Rightarrow> Some (map (\<lambda>result. map_of result ''complete'') results))"

text \<open>The callback invocations of a \<^verbatim>\<open>generate\<close> run, and the state a sequence of calls leaves.\<close>

definition progress_calls ::
  "(js_error + (gen_stats \<times> progress_call list \<times> rb_state)) option \<Rightarrow> progress_call list" where
  "progress_calls r = (case r of Some (Inr (stats, calls, s)) \<Rightarrow> calls | _ \<Rightarrow> [])"

definition state_after :: "real list \<Rightarrow> rb_state \<Rightarrow> rb_state option" where
  "state_after rnds s = (case step_calls rnds s of Inl e \<Rightarrow> None | Inr (results, s') \<Rightarrow> Some s')"

text \<open>Membership of a coordinate in the grid, and the grid cells that are marked current.\<close>

definition in_grid :: "maze \<Rightarrow> coord \<Rightarrow> bool" where
  "in_grid m p \<longleftrightarrow> isValidCoordinate (fst p) (snd p) (width m) (height m)"

definition current_cells :: "maze \<Rightarrow> coord list" where
  "current_cells m =
     filter (\<lambda>p. current (getCell m (fst p) (snd p)))
       (List.product [0..width m - 1] [0..height m - 1])"

text \<open>
  The invariant behind the current-cell marker: the algorithm has a current cell inside the
  grid, the stack holds cells of the grid, and a grid cell is marked current exactly when it is
  the algorithm's current cell and the run is not complete.
\<close>

definition current_inv :: "rb_state \<Rightarrow> bool" where
  "current_inv s \<longleftrightarrow>
     (\<exists>c. this_current s = Some c \<and> in_grid (maze s) c \<and>
          (\<forall>p \<in> set (stack s). in_grid (maze s) p) \<and>
          (\<forall>p. in_grid (maze s) p \<longrightarrow> (current (grid (maze s) p) \<longleftrightarrow> p = c \<and> \<not> isComplete s)))"

section \<open>EventBus\<close>

text \<open>
  A subscription entry of \<^verbatim>\<open>this.events[event]\<close>. Callbacks and context objects are
  JavaScript references; they are named by numbers, \<open>None\<close> being \<^verbatim>\<open>null\<close>.
\<close>

record listener =
  l_callback :: nat
  l_context :: "nat option"
  l_id :: string

text \<open>
  What a callback can reach: the bus itself (the own properties of its \<^verbatim>\<open>events\<close> object
  and \<^verbatim>\<open>debugMode\<close>), the console, and the rest of the application.
\<close>

record 'a world =
  events :: "string \<rightharpoonup> listener list"
  debugMode :: bool
  console :: "string list"
  app :: 'a

text \<open>
  The exceptions in play: one thrown by a listener's callback, and the two \<^verbatim>\<open>TypeError\<close>s
  the bus itself can raise on a value that is not an array.
\<close>

datatype bus_error = ListenerError string | NotIterable | NotAFunction

text \<open>
  The callbacks are arbitrary JavaScript functions. Their behaviour is a parameter: called
  with a \<^verbatim>\<open>this\<close> object and the data, a callback may change the world, the bus included,
  and it either returns (\<open>None\<close>) or throws (\<open>Some\<close> of the error). A callback that
  never returns is outside this model.
\<close>

type_synonym ('d, 'a) behaviour =
  "nat \<Rightarrow> nat option \<Rightarrow> 'd \<Rightarrow> 'a world \<Rightarrow> string option \<times> 'a world"

type_synonym 'd invocation = "nat \<times> nat option \<times> 'd"

text \<open>
  \<^verbatim>\<open>this.events\<close> is a plain object, so \<^verbatim>\<open>this.events[event]\<close> finds the properties of
  \<^verbatim>\<open>Object.prototype\<close> too when the object has no own property of that name. They are
  functions (and, for \<^verbatim>\<open>__proto__\<close>, the prototype object): truthy, and neither arrays nor
  iterable.
\<close>

definition inherited_names :: "string set" where
  "inherited_names =
     {''constructor'', ''hasOwnProperty'', ''isPrototypeOf'', ''propertyIsEnumerable'',
      ''toLocaleString'', ''toString'', ''valueOf'', ''__proto__'', ''__defineGetter__'',
      ''__defineSetter__'', ''__lookupGetter__'', ''__lookupSetter__''}"

datatype entry = Undefined | Inherited | Registered "listener list"

definition events_get :: "'a world \<Rightarrow> string \<Rightarrow> entry" where
  "events_get w event =
     (case events w event of
        Some ls \<Rightarrow> Registered ls
      | None \<Rightarrow> if event \<in> inherited_names then Inherited else Undefined)"

definition debug_log :: "string \<Rightarrow> 'a world \<Rightarrow> 'a world" where
  "debug_log msg w = (if debugMode w then w\<lparr>console := console w @ [msg]\<rparr> else w)"

text \<open>
  \<^verbatim>\<open>on\<close> and \<^verbatim>\<open>off\<close>. The listener id comes from the clock and \<^verbatim>\<open>Math.random()\<close>;
  it is an argument here.
\<close>

definition on :: "string \<Rightarrow> nat \<Rightarrow> nat option \<Rightarrow> string \<Rightarrow> 'a world \<Rightarrow> bus_error + 'a world" where
  "on event cb ctx new_id w =
     (let w1 = (case events_get w event of
                  Undefined \<Rightarrow> w\<lparr>events := (events w)(event \<mapsto> [])\<rparr>
                | _ \<Rightarrow> w)
      in case events_get w1 event of
           Registered ls \<Rightarrow>
             Inr (debug_log (''EventBus: Subscribed to '' @ event)
                    (w1\<lparr>events := (events w1)(event \<mapsto>
                           ls @ [\<lparr> l_callback = cb, l_context = ctx, l_id = new_id \<rparr>])\<rparr>))
         | _ \<Rightarrow> Inl NotAFunction)"

definition off :: "string \<Rightarrow> nat \<Rightarrow> 'a world \<Rightarrow> bus_error + 'a world" where
  "off event cb w =
     (case events_get w event of
        Undefined \<Rightarrow> Inr w
      | Inherited \<Rightarrow> Inl NotAFunction
      | Registered ls \<Rightarrow>
          let ls' = filter (\<lambda>l. l_callback l \<noteq> cb) ls;
              w1 = w\<lparr>events := (events w)(event \<mapsto> ls')\<rparr>;
              w2 = (if length ls' = 0 then w1\<lparr>events := (events w1)(event := None)\<rparr> else w1)
          in Inr (debug_log (''EventBus: Unsubscribed from '' @ event) w2))"

text \<open>
  The body of the \<^verbatim>\<open>forEach\<close> in \<^verbatim>\<open>emit\<close>: the call of the callback inside
  \<^verbatim>\<open>try\<close>, with the \<^verbatim>\<open>catch\<close> that logs to the console. Each call is recorded in a
  list of invocations that the callbacks cannot touch. \<open>forEach\<close> itself would pass on an
  exception of its body.
\<close>

definition call_listener ::
  "('d, 'a) behaviour \<Rightarrow> string \<Rightarrow> 'd \<Rightarrow> listener \<Rightarrow> 'd invocation list \<times> 'a world \<Rightarrow>
     (bus_error + unit) \<times> 'd invocation list \<times> 'a world" where
  "call_listener beh event data l st =
     (case beh (l_callback l) (l_context l) data (snd st) of
        (None, w') \<Rightarrow> (Inr (), fst st @ [(l_callback l, l_context l, data)], w')
      | (Some err, w') \<Rightarrow>
          (Inr (), fst st @ [(l_callback l, l_context l, data)],
           w'\<lparr>console := console w' @ [''EventBus: Error in event listener for '' @ event]\<rparr>))"

fun forEach ::
  "('l \<Rightarrow> 's \<Rightarrow> (bus_error + unit) \<times> 's) \<Rightarrow> 'l list \<Rightarrow> 's \<Rightarrow> (bus_error + unit) \<times> 's" where
  "forEach body [] st = (Inr (), st)"
| "forEach body (l # ls) st =
     (case body l st of
        (Inl err, st') \<Rightarrow> (Inl err, st')
      | (Inr u, st') \<Rightarrow> forEach body ls st')"

text \<open>
  \<^verbatim>\<open>emit\<close> returns when the event has no entry; otherwise it copies the array of
  listeners (\<^verbatim>\<open>[...this.events[event]]\<close>, which throws on a value that is not iterable) and
  runs over the copy.
\<close>

definition emit ::
  "('d, 'a) behaviour \<Rightarrow> string \<Rightarrow> 'd \<Rightarrow> 'a world \<Rightarrow>
     (bus_error + unit) \<times> 'd invocation list \<times> 'a world" where
  "emit beh event data w =
     (let w1 = debug_log (''EventBus: Emitting '' @ event) w
      in case events_get w1 event of
           Undefined \<Rightarrow> (Inr (), [], w1)
         | Inherited \<Rightarrow> (Inl NotIterable, [], w1)
         | Registered registered \<Rightarrow>
             let listeners = registered
             in forEach (call_listener beh event data) listeners ([], w1))"

definition subscribed :: "'a world \<Rightarrow> string \<Rightarrow> listener list" where
  "subscribed w event = (case events w event of None \<Rightarrow> [] | Some ls \<Rightarrow> ls)"

text \<open>
  An example: a bus with two listeners for the event \<^verbatim>\<open>tick\<close>, and callbacks of which
  number 0 unsubscribes callback 1 and then throws.
\<close>

definition empty_bus :: "unit world" where
  "empty_bus = \<lparr> events = Map.empty, debugMode = False, console = [], app = () \<rparr>"

definition rude_listener :: "(nat, unit) behaviour" where
  "rude_listener cb ctx data w =
     (if cb = 0 then (Some ''boom'', (case off ''tick'' 1 w of Inr w' \<Rightarrow> w' | Inl e \<Rightarrow> w))
      else (None, w))"

definition two_listeners :: "unit world" where
  "two_listeners =
     (case on ''tick'' 0 None ''a'' empty_bus of
        Inl e \<Rightarrow> empty_bus
      | Inr w \<Rightarrow> (case on ''tick'' 1 (Some 5) ''b'' w of Inl e \<Rightarrow> w | Inr w' \<Rightarrow> w'))"

section \<open>The configuration object and the 3D scene\<close>

text \<open>
  \<^verbatim>\<open>window.MazeConfig\<close> is an object whose property \<^verbatim>\<open>threeD\<close> is another object.
  The store holds the nested object's values and the set of objects that have been frozen.
  \<^verbatim>\<open>Object.freeze\<close> freezes the object it is given and not the objects its properties
  refer to. An assignment to a property of a frozen object throws a \<^verbatim>\<open>TypeError\<close> in
  strict mode, which class bodies are in.
\<close>

record threeD_settings =
  wallHeight :: real
  cellSize :: real
  playerHeight :: real
  cameraDistance :: real
  lightIntensity :: real
  enableShadows :: bool
  fogDensity :: real
  renderDistance :: real

datatype config_object = MazeConfig | MazeConfig_threeD

record config_store =
  threeD :: threeD_settings
  frozen :: "config_object set"

definition MazeConfig_literal :: config_store where
  "MazeConfig_literal =
     \<lparr> threeD = \<lparr> wallHeight = 3, cellSize = 4, playerHeight = 1.8, cameraDistance = 50,
                    lightIntensity = 0.8, enableShadows = False, fogDensity = 0.01,
                    renderDistance = 100 \<rparr>,
       frozen = {} \<rparr>"

definition Object_freeze :: "config_object \<Rightarrow> config_store \<Rightarrow> config_store" where
  "Object_freeze obj st = st\<lparr>frozen := insert obj (frozen st)\<rparr>"

definition config_startup :: config_store where
  "config_startup = Object_freeze MazeConfig MazeConfig_literal"

definition set_cameraDistance :: "config_object \<Rightarrow> real \<Rightarrow> config_store \<Rightarrow> js_error + config_store" where
  "set_cameraDistance obj v st =
     (if obj \<in> frozen st then Inl TypeError
      else case obj of
        MazeConfig_threeD \<Rightarrow> Inr (st\<lparr>threeD := (threeD st)\<lparr>cameraDistance := v\<rparr>\<rparr>)
      | MazeConfig \<Rightarrow> Inr st)"

text \<open>
  \<^verbatim>\<open>MazeScene3D\<close>: the fields that \<^verbatim>\<open>fitCameraToMaze\<close> uses. The constructor sets
  \<^verbatim>\<open>this.config = window.MazeConfig.threeD\<close>, a reference to the nested object and not
  a copy of it.
\<close>

record camera =
  position :: "real \<times> real \<times> real"
  lookAt :: "real \<times> real \<times> real"

record scene3D =
  scene_maze :: "(int \<times> int) option"
  scene_camera :: "camera option"
  scene_config :: config_object

definition scene_constructor :: scene3D where
  "scene_constructor = \<lparr> scene_maze = None, scene_camera = None, scene_config = MazeConfig_threeD \<rparr>"

definition getMazeCenter :: "config_store \<Rightarrow> scene3D \<Rightarrow> real \<times> real \<times> real" where
  "getMazeCenter st sc =
     (case scene_maze sc of
        None \<Rightarrow> (0, 0, 0)
      | Some (w, h) \<Rightarrow>
          ((real_of_int w * cellSize (threeD st)) / 2, 0, (real_of_int h * cellSize (threeD st)) / 2))"

definition setCameraView_overhead :: "config_store \<Rightarrow> scene3D \<Rightarrow> scene3D" where
  "setCameraView_overhead st sc =
     (case scene_camera sc of
        None \<Rightarrow> sc
      | Some cam \<Rightarrow>
          (case getMazeCenter st sc of
             (cx, cy, cz) \<Rightarrow>
               sc\<lparr>scene_camera := Some (cam\<lparr> position := (cx, cameraDistance (threeD st), cz),
                                               lookAt := (cx, 0, cz) \<rparr>)\<rparr>))"

definition fitCameraToMaze :: "config_store \<Rightarrow> scene3D \<Rightarrow> js_error + (config_store \<times> scene3D)" where
  "fitCameraToMaze st sc =
     (case (scene_maze sc, scene_camera sc) of
        (Some (w, h), Some cam) \<Rightarrow>
          let maxDimension = max w h;
              distance = real_of_int maxDimension * cellSize (threeD st) * 0.8
          in (case set_cameraDistance (scene_config sc) distance st of
                Inl e \<Rightarrow> Inl e
              | Inr st' \<Rightarrow> Inr (st', setCameraView_overhead st' sc))
      | _ \<Rightarrow> Inr (st, sc))"

definition loaded_scene :: scene3D where
  "loaded_scene = scene_constructor\<lparr> scene_maze := Some (31, 31),
      scene_camera := Some \<lparr> position = (0, 0, 0), lookAt = (0, 0, 0) \<rparr> \<rparr>"

section \<open>The passage graph of a grid\<close>

text \<open>
  The notions the tree property is stated with. A simple path is a non-empty list of distinct
  vertices, each joined to the next by an edge; a graph has unique paths when any two of its
  vertices are joined by exactly one simple path, which says that it is connected and has no
  cycle. The passage cells of a grid are its cells that are not walls, two of them are joined
  when they are next to each other horizontally or vertically, and a corridor is such a pair
  counted once, from its western or northern cell.
\<close>

definition simple_path :: "('a \<times> 'a) set \<Rightarrow> 'a \<Rightarrow> 'a \<Rightarrow> 'a list \<Rightarrow> bool" where
  "simple_path E p q xs \<longleftrightarrow>
     xs \<noteq> [] \<and> hd xs = p \<and> last xs = q \<and> distinct xs \<and> successively (\<lambda>a b. (a, b) \<in> E) xs"

definition unique_paths :: "'a set \<Rightarrow> ('a \<times> 'a) set \<Rightarrow> bool" where
  "unique_paths V E \<longleftrightarrow> (\<forall>p \<in> V. \<forall>q \<in> V. \<exists>!xs. simple_path E p q xs)"

definition room :: "coord \<Rightarrow> bool" where
  "room p \<longleftrightarrow> odd (fst p) \<and> odd (snd p)"

definition adjacent :: "coord \<Rightarrow> coord \<Rightarrow> bool" where
  "adjacent p q \<longleftrightarrow> \<bar>fst p - fst q\<bar> + \<bar>snd p - snd q\<bar> = 1"

definition cells :: "maze \<Rightarrow> coord set" where
  "cells m = {0..<width m} \<times> {0..<height m}"

definition passage :: "maze \<Rightarrow> coord set" where
  "passage m = {p \<in> cells m. \<not> wall (getCell m (fst p) (snd p))}"

definition visited_cells :: "maze \<Rightarrow> coord set" where
  "visited_cells m = {p \<in> cells m. visited (getCell m (fst p) (snd p))}"

definition adjacent_pairs :: "coord set \<Rightarrow> (coord \<times> coord) set" where
  "adjacent_pairs P = {e \<in> P \<times> P. adjacent (fst e) (snd e)}"

definition passage_edges :: "maze \<Rightarrow> (coord \<times> coord) set" where
  "passage_edges m = adjacent_pairs (passage m)"

definition corridors :: "maze \<Rightarrow> (coord \<times> coord) set" where
  "corridors m =
     {e \<in> passage_edges m. snd e = (fst (fst e) + 1, snd (fst e)) \<or> snd e = (fst (fst e), snd (fst e) + 1)}"

definition corridor_shape :: "coord set \<Rightarrow> bool" where
  "corridor_shape P \<longleftrightarrow>
     (\<forall>p \<in> P. room p
        \<or> (even (fst p) \<and> odd (snd p) \<and> (fst p - 1, snd p) \<in> P \<and> (fst p + 1, snd p) \<in> P)
        \<or> (odd (fst p) \<and> even (snd p) \<and> (fst p, snd p - 1) \<in> P \<and> (fst p, snd p + 1) \<in> P))"

text \<open>
  The wall cell that \<^verbatim>\<open>step()\<close> clears, the facts about one carving that the proofs use, the
  invariant of the run, and the number that every step of an incomplete run decreases.
\<close>

definition wall_between :: "coord \<Rightarrow> coord \<Rightarrow> coord" where
  "wall_between c n = (fst c + (fst n - fst c) div 2, snd c + (snd n - snd c) div 2)"

definition maze_inv :: "rb_state \<Rightarrow> bool" where
  "maze_inv s \<longleftrightarrow>
     stepSize s = 2 \<and>
     (\<exists>c. this_current s = Some c \<and> room c \<and> c \<in> passage (maze s)) \<and>
     (\<forall>p \<in> set (stack s). room p \<and> p \<in> passage (maze s)) \<and>
     visited_cells (maze s) = passage (maze s) \<and>
     corridor_shape (passage (maze s)) \<and>
     unique_paths (passage (maze s)) (passage_edges (maze s)) \<and>
     card (passage_edges (maze s)) + 2 = 2 * card (passage (maze s)) \<and>
     card {p \<in> passage (maze s). \<not> room p} + 1 = card {p \<in> passage (maze s). room p}"

definition carving :: "coord \<Rightarrow> coord \<Rightarrow> coord \<Rightarrow> bool" where
  "carving c w n \<longleftrightarrow>
     room c \<and> room n \<and> adjacent c w \<and> adjacent w n \<and>
     odd (fst w + snd w) \<and>
     (\<forall>q. room q \<longrightarrow> adjacent w q \<longrightarrow> q = c \<or> q = n) \<and>
     ((even (fst w) \<and> odd (snd w) \<and> (fst w - 1, snd w) \<in> {c, n} \<and> (fst w + 1, snd w) \<in> {c, n}) \<or>
      (odd (fst w) \<and> even (snd w) \<and> (fst w, snd w - 1) \<in> {c, n} \<and> (fst w, snd w + 1) \<in> {c, n}))"

definition run_measure :: "rb_state \<Rightarrow> nat" where
  "run_measure s =
     card (cells (maze s) - passage (maze s)) + length (stack s) + (if isComplete s then 0 else 1)"

section \<open>Results about the grid helpers\<close>

lemmas rb_defs = step_def initialize_def constructor_def wallGrid_def getUnvisitedNeighbors_def
  isValidCoordinate_def getCell_def setCell_def carve_def backtrack_def finish_def
  step_return_def Let_def coord_value_def

lemma isValidCoordinate_iff:
  "isValidCoordinate x y w h \<longleftrightarrow> 0 \<le> x \<and> x < w \<and> 0 \<le> y \<and> y < h"
  by (auto simp: isValidCoordinate_def)

lemma merge_cellState [simp]:
  "merge_cell c (cellState w v cu p) = \<lparr> wall = w, visited = v, current = cu, path = p \<rparr>"
  by (simp add: merge_cell_def cellState_def)

lemma neighbors_valid:
  "dir \<in> set (getUnvisitedNeighbors s cx cy) \<Longrightarrow>
     isValidCoordinate (fst dir) (snd dir) (width (maze s)) (height (maze s))"
  by (simp add: getUnvisitedNeighbors_def Let_def del: filter.simps)

lemma neighbors_unvisited:
  "dir \<in> set (getUnvisitedNeighbors s cx cy) \<Longrightarrow> \<not> visited (grid (maze s) dir)"
  by (simp add: getUnvisitedNeighbors_def Let_def getCell_def del: filter.simps)

lemma neighbors_candidates:
  "dir \<in> set (getUnvisitedNeighbors s cx cy) \<Longrightarrow>
     dir \<in> {(cx, cy - stepSize s), (cx + stepSize s, cy), (cx, cy + stepSize s), (cx - stepSize s, cy)}"
  by (simp add: getUnvisitedNeighbors_def Let_def del: filter.simps)

lemma neighbors_frame:
  assumes "\<And>px py. isValidCoordinate px py (width (maze s)) (height (maze s)) \<Longrightarrow>
             getCell (maze s') px py = getCell (maze s) px py"
    and "width (maze s') = width (maze s)" "height (maze s') = height (maze s)"
    and "stepSize s' = stepSize s"
  shows "getUnvisitedNeighbors s' cx cy = getUnvisitedNeighbors s cx cy"
  unfolding getUnvisitedNeighbors_def Let_def assms(2-4)
  by (rule filter_cong [OF refl]) (metis assms(1))

text \<open>
  Claim C6. \<^verbatim>\<open>isValidCoordinate(x, y, width, height)\<close> is true exactly when
  \<open>0 \<le> x < width\<close> and \<open>0 \<le> y < height\<close>. Every coordinate that
  \<^verbatim>\<open>getUnvisitedNeighbors\<close> returns is inside the grid; candidates outside are left out
  of the returned array. The function is total and it reads the grid only at coordinates
  inside the bounds (two grids that agree there give the same neighbours), so no read can
  fail.
\<close>

theorem neighbors_in_bounds:
  "(isValidCoordinate x y w h \<longleftrightarrow> 0 \<le> x \<and> x < w \<and> 0 \<le> y \<and> y < h) \<and>
   (\<forall>dir \<in> set (getUnvisitedNeighbors s cx cy).
      isValidCoordinate (fst dir) (snd dir) (width (maze s)) (height (maze s))) \<and>
   ((\<forall>px py. isValidCoordinate px py (width (maze s)) (height (maze s)) \<longrightarrow>
        getCell (maze s') px py = getCell (maze s) px py) \<and>
      width (maze s') = width (maze s) \<and> height (maze s') = height (maze s) \<and>
      stepSize s' = stepSize s \<longrightarrow>
      getUnvisitedNeighbors s' cx cy = getUnvisitedNeighbors s cx cy)"
proof (intro conjI impI ballI)
  show "isValidCoordinate x y w h \<longleftrightarrow> 0 \<le> x \<and> x < w \<and> 0 \<le> y \<and> y < h"
    by (rule isValidCoordinate_iff)
next
  fix dir assume "dir \<in> set (getUnvisitedNeighbors s cx cy)"
  then show "isValidCoordinate (fst dir) (snd dir) (width (maze s)) (height (maze s))"
    by (rule neighbors_valid)
next
  assume "(\<forall>px py. isValidCoordinate px py (width (maze s)) (height (maze s)) \<longrightarrow>
        getCell (maze s') px py = getCell (maze s) px py) \<and>
      width (maze s') = width (maze s) \<and> height (maze s') = height (maze s) \<and>
      stepSize s' = stepSize s"
  then show "getUnvisitedNeighbors s' cx cy = getUnvisitedNeighbors s cx cy"
    by (intro neighbors_frame) simp_all
qed

theorem neighbors_in_bounds_witness:
  "getUnvisitedNeighbors (initialize (constructor (wallGrid 5 5) None)) 1 1 = [(3, 1), (1, 3)] \<and>
   isValidCoordinate 3 1 5 5 \<and> isValidCoordinate 1 3 5 5 \<and>
   \<not> isValidCoordinate (-1) 1 5 5 \<and> \<not> isValidCoordinate 1 (-1) 5 5"
proof -
  have e: "getUnvisitedNeighbors (initialize (constructor (wallGrid 5 5) None)) 1 1 = [(3, 1), (1, 3)]"
    by (simp add: rb_defs)
  have w: "width (maze (initialize (constructor (wallGrid 5 5) None))) = 5"
          "height (maze (initialize (constructor (wallGrid 5 5) None))) = 5"
    by (simp_all add: rb_defs)
  have "\<forall>dir \<in> set [(3, 1), (1, 3)]. isValidCoordinate (fst dir) (snd dir) 5 (5::int)"
    using neighbors_in_bounds [of 1 1 5 5 "initialize (constructor (wallGrid 5 5) None)" 1 1]
    unfolding w e by blast
  moreover have "\<not> isValidCoordinate (-1) 1 5 5 \<and> \<not> isValidCoordinate 1 (-1) 5 5"
    using neighbors_in_bounds [of "-1" 1 5 5] neighbors_in_bounds [of 1 "-1" 5 5] by simp
  ultimately show ?thesis using e by simp
qed

section \<open>Results about single calls of step\<close>

lemma step_complete:
  "isComplete s \<Longrightarrow>
     step rnd s = Inr ([(''complete'', JBool True), (''current'', coord_value (this_current s))], s)"
  by (simp add: step_def)

text \<open>
  Claim C3. Once \<^verbatim>\<open>isComplete\<close> is true, every further call of \<^verbatim>\<open>step()\<close>, whatever
  its number, returns the same object (\<^verbatim>\<open>complete\<close> true and the same current cell) and
  leaves the whole state, hence every cell of the grid, as it was.
\<close>

theorem step_after_complete:
  "isComplete s \<Longrightarrow>
     step_calls rnds s =
       Inr (replicate (length rnds)
              [(''complete'', JBool True), (''current'', coord_value (this_current s))], s)"
  by (induction rnds) (simp_all add: step_complete)

theorem step_after_complete_witness:
  "isComplete (finish (initialize (constructor (wallGrid 3 3) None)) (1, 1)) \<and>
   step_calls [0, 1/2] (finish (initialize (constructor (wallGrid 3 3) None)) (1, 1)) =
     Inr ([[(''complete'', JBool True), (''current'', JCoord 1 1)],
           [(''complete'', JBool True), (''current'', JCoord 1 1)]],
          finish (initialize (constructor (wallGrid 3 3) None)) (1, 1))"
  using step_after_complete [of "finish (initialize (constructor (wallGrid 3 3) None)) (1, 1)" "[0, 1/2]"]
  by (simp add: finish_def initialize_def constructor_def coord_value_def)

text \<open>
  Claim C5, as the code has it. A call of \<^verbatim>\<open>step()\<close> made while the run is not complete
  returns an object with exactly the four fields \<^verbatim>\<open>complete\<close>, \<^verbatim>\<open>current\<close>,
  \<^verbatim>\<open>step\<close> (which holds the step count) and \<^verbatim>\<open>stackSize\<close>; a call made after
  completion returns an object with the two fields \<^verbatim>\<open>complete\<close> and \<^verbatim>\<open>current\<close> only.
\<close>

theorem step_result_fields:
  "even (stepSize s) \<Longrightarrow> step rnd s = Inr (result, s') \<Longrightarrow>
     map fst result =
       (if isComplete s then [''complete'', ''current'']
        else [''complete'', ''current'', ''step'', ''stackSize'']) \<and>
     map_of result ''complete'' = Some (JBool (isComplete s')) \<and>
     map_of result ''current'' = Some (coord_value (this_current s')) \<and>
     (\<not> isComplete s \<longrightarrow>
        map_of result ''step'' = Some (JNum (stepCount s')) \<and>
        map_of result ''stackSize'' = Some (JNum (length (stack s'))))"
  by (auto simp: step_def step_return_def Let_def split: if_splits option.splits)

theorem step_result_fields_witness:
  "even (stepSize (initialize (constructor (wallGrid 3 3) None))) \<and>
   step 0 (initialize (constructor (wallGrid 3 3) None)) =
     Inr (step_return (finish (initialize (constructor (wallGrid 3 3) None)) (1, 1))) \<and>
   map fst (fst (step_return (finish (initialize (constructor (wallGrid 3 3) None)) (1, 1)))) =
     [''complete'', ''current'', ''step'', ''stackSize'']"
  using step_result_fields [of "initialize (constructor (wallGrid 3 3) None)" 0
      "fst (step_return (finish (initialize (constructor (wallGrid 3 3) None)) (1, 1)))"
      "snd (step_return (finish (initialize (constructor (wallGrid 3 3) None)) (1, 1)))"]
  by (simp add: rb_defs)

text \<open>
  The claim as the specification words it fails: on a 3 by 3 grid the first call completes the
  run and returns four fields, none of them named \<^verbatim>\<open>stepCount\<close>, and the second call
  returns two.
\<close>

theorem step_result_fields_counterexample:
  "field_names (step_calls [0, 0] (initialize (constructor (wallGrid 3 3) None))) =
     Some [[''complete'', ''current'', ''step'', ''stackSize''], [''complete'', ''current'']]"
  by (simp add: rb_defs field_names_def)

text \<open>
  Claim C4, as the code has it. On a 3 by 3 grid, whatever its cells hold, the run started at
  (1,1) ends with its first call of \<^verbatim>\<open>step()\<close>: the distance-2 neighbours of (1,1) all lie
  outside the grid, so the call marks the start cell as path, sets \<^verbatim>\<open>isComplete\<close> and
  returns \<^verbatim>\<open>complete\<close> true.
\<close>

theorem three_by_three_one_step:
  "width m = 3 \<Longrightarrow> height m = 3 \<Longrightarrow>
     (\<exists>result s'. step rnd (initialize (constructor m None)) = Inr (result, s') \<and>
        map_of result ''complete'' = Some (JBool True) \<and>
        isComplete s' \<and> stepCount s' = 1 \<and>
        path (getCell (maze s') 1 1) \<and> \<not> wall (getCell (maze s') 1 1) \<and>
        this_current s' = Some (1, 1))"
  by (simp add: rb_defs)

theorem three_by_three_one_step_witness:
  "width (wallGrid 3 3) = 3 \<and> height (wallGrid 3 3) = 3 \<and>
   complete_flags (step_calls [1/2] (initialize (constructor (wallGrid 3 3) None))) =
     Some [Some (JBool True)]"
  using three_by_three_one_step [of "wallGrid 3 3" "1/2"]
  by (auto simp: wallGrid_def complete_flags_def)

text \<open>
  On a 5 by 5 grid of walls the cells (3,1) and (1,3) are inside the grid and unvisited, so the
  first call moves on and does not complete; with every draw 0 the run completes with its
  seventh call.
\<close>

theorem five_by_five_counterexample:
  "complete_flags (step_calls [0, 0, 0, 0, 0, 0, 0] (initialize (constructor (wallGrid 5 5) None))) =
     Some [Some (JBool False), Some (JBool False), Some (JBool False), Some (JBool False),
           Some (JBool False), Some (JBool False), Some (JBool True)]"
  by (simp add: rb_defs complete_flags_def)

section \<open>The progress reports of generate\<close>

lemma step_stepCount:
  "\<not> isComplete s \<Longrightarrow> step rnd s = Inr (result, s') \<Longrightarrow> stepCount s' = stepCount s + 1"
  by (auto simp: step_def step_return_def carve_def backtrack_def finish_def Let_def
      split: if_splits option.splits)

lemma generate_loop_calls:
  "generate_loop rnds True totalCells processedCells calls s = Some (Inr (processedCells', calls', s')) \<Longrightarrow>
     \<exists>n. processedCells' = processedCells + n \<and>
         stepCount s' = stepCount s + n \<and>
         isComplete s' \<and>
         length calls' = length calls + n \<and>
         take (length calls) calls' = calls \<and>
         map fst (drop (length calls) calls') = map (\<lambda>i. percentage (processedCells + Suc i) totalCells) [0..<n] \<and>
         map (fst \<circ> snd) (drop (length calls) calls') = map (\<lambda>i. stepCount s + Suc i) [0..<n]"
proof (induction rnds arbitrary: processedCells calls s)
  case Nil
  then show ?case by (auto split: if_splits)
next
  case (Cons rnd rnds)
  show ?case
  proof (cases "isComplete s")
    case True
    with Cons.prems show ?thesis by auto
  next
    case False
    with Cons.prems obtain result s1 where st: "step rnd s = Inr (result, s1)"
      by (auto split: sum.splits)
    let ?c = "(percentage (processedCells + 1) totalCells, stepCount s1, result)"
    from Cons.prems False st
    have rec: "generate_loop rnds True totalCells (processedCells + 1) (calls @ [?c]) s1 =
                 Some (Inr (processedCells', calls', s'))"
      by (simp add: Let_def)
    from Cons.IH [OF rec] obtain n where n:
      "processedCells' = processedCells + 1 + n" "stepCount s' = stepCount s1 + n" "isComplete s'"
      "length calls' = length (calls @ [?c]) + n"
      "take (length (calls @ [?c])) calls' = calls @ [?c]"
      "map fst (drop (length (calls @ [?c])) calls') =
         map (\<lambda>i. percentage (processedCells + 1 + Suc i) totalCells) [0..<n]"
      "map (fst \<circ> snd) (drop (length (calls @ [?c])) calls') = map (\<lambda>i. stepCount s1 + Suc i) [0..<n]"
      by blast
    have sc: "stepCount s1 = stepCount s + 1" using step_stepCount [OF False st] .
    have split: "calls' = calls @ ?c # drop (Suc (length calls)) calls'"
      using n(5) by (metis append_take_drop_id append.assoc append_Cons append_Nil length_append_singleton)
    then have tk: "take (length calls) calls' = calls"
      by (metis append_eq_conv_conj)
    from split have dr: "drop (length calls) calls' = ?c # drop (Suc (length calls)) calls'"
      by (metis append_eq_conv_conj)
    have up: "[0..<Suc n] = 0 # map Suc [0..<n]"
      by (simp add: upt_conv_Cons map_Suc_upt del: upt_Suc)
    show ?thesis
      apply (rule exI [of _ "Suc n"])
      using n sc tk unfolding dr up
      by (simp add: o_def)
  qed
qed

lemma generate_calls:
  assumes "generate rnds True s0 = Some (Inr (stats, calls, s'))"
  shows "cellsProcessed stats = length calls" "stepCount s' = length calls" "isComplete s'"
    "map fst calls = map (\<lambda>i. percentage (Suc i) ((width (maze s0) * height (maze s0)) div 4)) [0..<length calls]"
    "map (fst \<circ> snd) calls = map Suc [0..<length calls]"
proof -
  let ?t = "(width (maze (initialize s0)) * height (maze (initialize s0))) div 4"
  from assms obtain pc where
    l: "generate_loop rnds True ?t 0 [] (initialize s0) = Some (Inr (pc, calls, s'))"
    and st: "stats = \<lparr> algorithm = ''recursive'', steps = stepCount s', cellsProcessed = pc \<rparr>"
    by (auto simp: generate_def Let_def split: option.splits sum.splits)
  have t: "?t = (width (maze s0) * height (maze s0)) div 4"
    by (simp add: initialize_def setCell_def)
  have z: "stepCount (initialize s0) = 0" by (simp add: initialize_def)
  from generate_loop_calls [OF l] obtain n where n:
    "pc = n" "stepCount s' = n" "isComplete s'" "length calls = n"
    "map fst calls = map (\<lambda>i. percentage (Suc i) ?t) [0..<n]"
    "map (fst \<circ> snd) calls = map (\<lambda>i. Suc i) [0..<n]"
    unfolding z by auto
  show "cellsProcessed stats = length calls" using st n by simp
  show "stepCount s' = length calls" using n by simp
  show "isComplete s'" using n by simp
  show "map fst calls = map (\<lambda>i. percentage (Suc i) ((width (maze s0) * height (maze s0)) div 4)) [0..<length calls]"
    using n t by simp
  show "map (fst \<circ> snd) calls = map Suc [0..<length calls]" using n by simp
qed

text \<open>
  Claim C7. In a \<^verbatim>\<open>generate\<close> run with a progress callback, the callback is invoked once
  in each iteration of the loop, that is once for each call of \<^verbatim>\<open>step()\<close>: the number of
  invocations is the \<^verbatim>\<open>cellsProcessed\<close> of the returned statistics and the final step
  count. The percentage of the invocation with index \<open>i\<close> (counting from 0) is
  \<open>(i + 1) / floor(width * height / 4) * 100\<close>; where that divisor is 0 the JavaScript
  division yields \<^verbatim>\<open>Infinity\<close>.
\<close>

theorem progress_percentage:
  assumes "even (stepSize s0)"
    and "generate rnds True s0 = Some (Inr (stats, calls, s'))"
    and "i < length calls"
  shows "length calls = cellsProcessed stats \<and> length calls = stepCount s' \<and>
         fst (calls ! i) =
           (if (width (maze s0) * height (maze s0)) div 4 = 0 then Infinity
            else Num (real (i + 1) / real_of_int ((width (maze s0) * height (maze s0)) div 4) * 100))"
proof -
  have "fst (calls ! i) = map fst calls ! i" using assms(3) by simp
  also have "\<dots> = percentage (Suc i) ((width (maze s0) * height (maze s0)) div 4)"
    unfolding generate_calls(4) [OF assms(2)] using assms(3) by simp
  finally show ?thesis
    using generate_calls(1,2) [OF assms(2)] by (simp add: percentage_def)
qed

theorem progress_percentage_witness:
  "length (progress_calls (generate [0, 0, 0, 0, 0, 0, 0] True (constructor (wallGrid 5 5) None))) = 7 \<and>
   fst (progress_calls (generate [0, 0, 0, 0, 0, 0, 0] True (constructor (wallGrid 5 5) None)) ! 2) = Num 50"
proof -
  obtain stats calls s' where
    g: "generate [0, 0, 0, 0, 0, 0, 0] True (constructor (wallGrid 5 5) None) = Some (Inr (stats, calls, s'))"
    and n: "length calls = 7"
    by (simp add: generate_def rb_defs)
  have i: "2 < length calls" using n by simp
  have e: "even (stepSize (constructor (wallGrid 5 5) None))" by (simp add: constructor_def)
  from progress_percentage [OF e g i]
  have "fst (calls ! 2) = Num 50" by (simp add: constructor_def wallGrid_def)
  then show ?thesis using n by (simp add: g progress_calls_def)
qed

text \<open>
  Claim C8. A call of \<^verbatim>\<open>step()\<close> on a run that is not complete raises the step count by
  exactly one, and the invocations of the progress callback in a \<^verbatim>\<open>generate\<close> run carry
  the step counts 1, 2, 3, ... in this order: strictly increasing, in step order.
\<close>

theorem progress_step_order:
  "(\<not> isComplete s \<and> even (stepSize s) \<and> step rnd s = Inr (result, s1) \<longrightarrow>
      stepCount s1 = stepCount s + 1) \<and>
   (even (stepSize s0) \<and> generate rnds True s0 = Some (Inr (stats, calls, s')) \<longrightarrow>
      map (fst \<circ> snd) calls = [1..<Suc (length calls)] \<and>
      sorted_wrt (<) (map (fst \<circ> snd) calls))"
proof (intro conjI impI)
  assume "\<not> isComplete s \<and> even (stepSize s) \<and> step rnd s = Inr (result, s1)"
  then show "stepCount s1 = stepCount s + 1" using step_stepCount by blast
next
  assume "even (stepSize s0) \<and> generate rnds True s0 = Some (Inr (stats, calls, s'))"
  then have g: "generate rnds True s0 = Some (Inr (stats, calls, s'))" by simp
  show e: "map (fst \<circ> snd) calls = [1..<Suc (length calls)]"
    unfolding generate_calls(5) [OF g] by (simp add: map_Suc_upt)
  show "sorted_wrt (<) (map (fst \<circ> snd) calls)"
    unfolding e by (simp add: sorted_wrt_upt del: upt_Suc)
qed

theorem progress_step_order_witness:
  "map (fst \<circ> snd) (progress_calls (generate [0, 0, 0, 0, 0, 0, 0] True (constructor (wallGrid 5 5) None)))
     = [1, 2, 3, 4, 5, 6, 7] \<and>
   stepCount (initialize (constructor (wallGrid 5 5) None)) = 0 \<and>
   map_option stepCount (state_after [0] (initialize (constructor (wallGrid 5 5) None))) = Some 1"
proof -
  obtain stats calls s' where
    g: "generate [0, 0, 0, 0, 0, 0, 0] True (constructor (wallGrid 5 5) None) = Some (Inr (stats, calls, s'))"
    and n: "length calls = 7"
    by (simp add: generate_def rb_defs)
  obtain result s1 where
    st: "step 0 (initialize (constructor (wallGrid 5 5) None)) = Inr (result, s1)"
    and nc: "\<not> isComplete (initialize (constructor (wallGrid 5 5) None))"
      "even (stepSize (initialize (constructor (wallGrid 5 5) None)))"
    by (simp add: rb_defs)
  have l: "[1..<Suc 7] = [1, 2, 3, 4, 5, 6, 7::nat]" by (simp add: upt_rec)
  have e: "even (stepSize (constructor (wallGrid 5 5) None))" by (simp add: constructor_def)
  from progress_step_order [of "initialize (constructor (wallGrid 5 5) None)" 0 result s1
      "constructor (wallGrid 5 5) None" "[0, 0, 0, 0, 0, 0, 0]" stats calls s'] g st nc e
  have "map (fst \<circ> snd) calls = [1..<Suc (length calls)]"
    and "stepCount s1 = stepCount (initialize (constructor (wallGrid 5 5) None)) + 1" by blast+
  moreover have "stepCount (initialize (constructor (wallGrid 5 5) None)) = 0"
    by (simp add: initialize_def)
  ultimately show ?thesis using n l
    by (simp add: g st progress_calls_def state_after_def)
qed

section \<open>The current-cell marker\<close>

lemma setCell_simps [simp]:
  "width (setCell m x y p) = width m"
  "height (setCell m x y p) = height m"
  "grid (setCell m x y (cellState w v c pa)) q =
     (if q = (x, y) then \<lparr> wall = w, visited = v, current = c, path = pa \<rparr> else grid m q)"
  by (simp_all add: setCell_def)

lemma in_grid_setCell [simp]: "in_grid (setCell m x y p) q = in_grid m q"
  by (simp add: in_grid_def)

lemma step_cases:
  assumes "step rnd s = Inr (result, s')"
  obtains (completed) "isComplete s" "s' = s"
  | (carve) cur nxt where "\<not> isComplete s" "this_current s = Some cur"
      "nxt \<in> set (getUnvisitedNeighbors s (fst cur) (snd cur))"
      "s' = snd (step_return (carve s cur nxt))"
  | (backtrack) cur where "\<not> isComplete s" "this_current s = Some cur"
      "getUnvisitedNeighbors s (fst cur) (snd cur) = []" "stack s \<noteq> []"
      "s' = snd (step_return (backtrack s cur))"
  | (finish) cur where "\<not> isComplete s" "this_current s = Some cur"
      "getUnvisitedNeighbors s (fst cur) (snd cur) = []" "stack s = []"
      "s' = snd (step_return (finish s cur))"
proof (cases "isComplete s")
  case True
  with assms have "s' = s" by (simp add: step_def)
  with True show ?thesis by (rule completed)
next
  case nc: False
  with assms obtain cur where cur: "this_current s = Some cur"
    by (auto simp: step_def split: option.splits)
  let ?ns = "getUnvisitedNeighbors s (fst cur) (snd cur)"
  show ?thesis
  proof (cases "?ns = []")
    case False
    let ?i = "\<lfloor>rnd * real (length ?ns)\<rfloor>"
    from assms nc cur False have r: "0 \<le> ?i" "?i < int (length ?ns)"
      and s': "s' = snd (step_return (carve s cur (?ns ! nat ?i)))"
      by (auto simp: step_def Let_def split: if_splits)
    from r have mem: "?ns ! nat ?i \<in> set ?ns" by (intro nth_mem) linarith
    from nc cur mem s' show ?thesis by (rule carve)
  next
    case True
    show ?thesis
    proof (cases "stack s = []")
      case False
      with assms nc cur True have "s' = snd (step_return (backtrack s cur))"
        by (auto simp: step_def Let_def)
      with nc cur True False show ?thesis by (rule backtrack)
    next
      case e: True
      with assms nc cur True have "s' = snd (step_return (finish s cur))"
        by (auto simp: step_def Let_def)
      with nc cur True e show ?thesis by (rule finish)
    qed
  qed
qed

lemma step_return_simps [simp]:
  "maze (snd (step_return s)) = maze s"
  "stack (snd (step_return s)) = stack s"
  "this_current (snd (step_return s)) = this_current s"
  "isComplete (snd (step_return s)) = isComplete s"
  "stepSize (snd (step_return s)) = stepSize s"
  "stepCount (snd (step_return s)) = stepCount s + 1"
  by (simp_all add: step_return_def Let_def)

lemma current_inv_step:
  assumes "current_inv s" "step rnd s = Inr (result, s')"
  shows "current_inv s'"
  using assms(2)
proof (cases rule: step_cases)
  case completed
  with assms(1) show ?thesis by simp
next
  case (carve cur nxt)
  have "in_grid (maze s) nxt" using neighbors_valid [OF carve(3)] by (simp add: in_grid_def)
  with assms(1) carve(1,2) show ?thesis
    unfolding carve(4) current_inv_def
    by (auto simp: carve_def Let_def)
next
  case (backtrack cur)
  have "last (stack s) \<in> set (stack s)" using backtrack(4) by simp
  moreover have "\<And>p. p \<in> set (butlast (stack s)) \<Longrightarrow> p \<in> set (stack s)"
    by (rule in_set_butlastD)
  ultimately show ?thesis using assms(1) backtrack(1,2)
    unfolding backtrack(5) current_inv_def
    by (auto simp: backtrack_def Let_def)
next
  case (finish cur)
  with assms(1) show ?thesis
    unfolding finish(5) current_inv_def
    by (auto simp: finish_def)
qed

lemma current_inv_step_calls:
  "current_inv s \<Longrightarrow> step_calls rnds s = Inr (results, s') \<Longrightarrow> current_inv s'"
proof (induction rnds arbitrary: s results)
  case Nil
  then show ?case by simp
next
  case (Cons rnd rnds)
  from Cons.prems(2) obtain result s1 results1 where
    "step rnd s = Inr (result, s1)" "step_calls rnds s1 = Inr (results1, s')"
    by (auto split: sum.splits)
  with Cons.IH current_inv_step [OF Cons.prems(1)] show ?case by blast
qed

lemma current_inv_initialize:
  assumes "1 < width m" "1 < height m"
    and "\<forall>x y. isValidCoordinate x y (width m) (height m) \<longrightarrow> \<not> current (getCell m x y)"
  shows "current_inv (initialize (constructor m cfg))"
  using assms unfolding current_inv_def
  by (auto simp: initialize_def constructor_def in_grid_def isValidCoordinate_def getCell_def)

text \<open>
  Claim C2. Take a grid in which the start cell (1,1) exists and no cell is marked current, and
  any state the run reaches: after \<^verbatim>\<open>initialize()\<close> and after each of any number of
  \<^verbatim>\<open>step()\<close> calls. While \<^verbatim>\<open>isComplete\<close> is false exactly one cell of the grid is marked
  current; once it is true no cell is.
\<close>

theorem exactly_one_current:
  assumes "1 < width m" "1 < height m"
    and "\<forall>x y. isValidCoordinate x y (width m) (height m) \<longrightarrow> \<not> current (getCell m x y)"
    and "step_calls rnds (initialize (constructor m None)) = Inr (results, s)"
  shows "(\<not> isComplete s \<longrightarrow>
            (\<exists>!p. isValidCoordinate (fst p) (snd p) (width (maze s)) (height (maze s)) \<and>
                   current (getCell (maze s) (fst p) (snd p)))) \<and>
         (isComplete s \<longrightarrow>
            \<not> (\<exists>p. isValidCoordinate (fst p) (snd p) (width (maze s)) (height (maze s)) \<and>
                   current (getCell (maze s) (fst p) (snd p))))"
proof -
  have "current_inv s"
    using current_inv_step_calls [OF current_inv_initialize [OF assms(1-3)] assms(4)] .
  then obtain c where c: "in_grid (maze s) c"
    "\<And>p. in_grid (maze s) p \<Longrightarrow> current (grid (maze s) p) \<longleftrightarrow> p = c \<and> \<not> isComplete s"
    unfolding current_inv_def by blast
  show ?thesis
  proof (intro conjI impI)
    assume nc: "\<not> isComplete s"
    show "\<exists>!p. isValidCoordinate (fst p) (snd p) (width (maze s)) (height (maze s)) \<and>
               current (getCell (maze s) (fst p) (snd p))"
    proof (rule ex1I [of _ c])
      show "isValidCoordinate (fst c) (snd c) (width (maze s)) (height (maze s)) \<and>
            current (getCell (maze s) (fst c) (snd c))"
        using c(1) c(2) [OF c(1)] nc by (simp add: in_grid_def getCell_def)
    next
      fix p
      assume "isValidCoordinate (fst p) (snd p) (width (maze s)) (height (maze s)) \<and>
              current (getCell (maze s) (fst p) (snd p))"
      then show "p = c" using c(2) [of p] by (simp add: in_grid_def getCell_def)
    qed
  next
    assume "isComplete s"
    then show "\<not> (\<exists>p. isValidCoordinate (fst p) (snd p) (width (maze s)) (height (maze s)) \<and>
                   current (getCell (maze s) (fst p) (snd p)))"
      using c(2) by (auto simp: in_grid_def getCell_def)
  qed
qed

theorem exactly_one_current_witness:
  "map_option (\<lambda>s. (isComplete s, current_cells (maze s)))
     (state_after [0, 0] (initialize (constructor (wallGrid 5 5) None))) = Some (False, [(3, 3)]) \<and>
   map_option (\<lambda>s. (isComplete s, current_cells (maze s)))
     (state_after [0, 0, 0, 0, 0, 0, 0] (initialize (constructor (wallGrid 5 5) None))) = Some (True, [])"
proof -
  have w: "1 < width (wallGrid 5 5)" "1 < height (wallGrid 5 5)"
    "\<forall>x y. isValidCoordinate x y (width (wallGrid 5 5)) (height (wallGrid 5 5)) \<longrightarrow>
        \<not> current (getCell (wallGrid 5 5) x y)"
    by (simp_all add: wallGrid_def getCell_def)
  obtain results s where
    a: "step_calls [0, 0] (initialize (constructor (wallGrid 5 5) None)) = Inr (results, s)"
    and a': "\<not> isComplete s" "current_cells (maze s) = [(3, 3)]"
    by (simp add: rb_defs current_cells_def upto_rec1)
  obtain results' s' where
    b: "step_calls [0, 0, 0, 0, 0, 0, 0] (initialize (constructor (wallGrid 5 5) None)) = Inr (results', s')"
    and b': "isComplete s'" "current_cells (maze s') = []"
    by (simp add: rb_defs current_cells_def upto_rec1)
  from exactly_one_current [OF w a] a'(1)
  have "\<exists>!p. isValidCoordinate (fst p) (snd p) (width (maze s)) (height (maze s)) \<and>
             current (getCell (maze s) (fst p) (snd p))" by blast
  moreover from exactly_one_current [OF w b] b'(1)
  have "\<not> (\<exists>p. isValidCoordinate (fst p) (snd p) (width (maze s')) (height (maze s')) \<and>
             current (getCell (maze s') (fst p) (snd p)))" by blast
  ultimately show ?thesis using a' b' by (simp add: state_after_def a b del: step_calls.simps)
qed

section \<open>Results about the event bus\<close>

lemma forEach_call_listener:
  "forEach (call_listener beh event data) ls (tr, w) = (r, tr', w') \<Longrightarrow>
     r = Inr () \<and> tr' = tr @ map (\<lambda>l. (l_callback l, l_context l, data)) ls"
proof (induction ls arbitrary: tr w)
  case Nil
  then show ?case by simp
next
  case (Cons l ls)
  obtain e w1 where b: "beh (l_callback l) (l_context l) data w = (e, w1)"
    by (cases "beh (l_callback l) (l_context l) data w")
  obtain w2 where c: "call_listener beh event data l (tr, w) = (Inr (), tr @ [(l_callback l, l_context l, data)], w2)"
    using b by (cases e) (simp_all add: call_listener_def)
  from Cons.prems have "forEach (call_listener beh event data) ls (tr @ [(l_callback l, l_context l, data)], w2) = (r, tr', w')"
    by (simp add: c)
  from Cons.IH [OF this] show ?case by simp
qed

lemma events_debug_log [simp]: "events (debug_log msg w) = events w"
  by (simp add: debug_log_def)

lemma events_get_debug_log [simp]: "events_get (debug_log msg w) event = events_get w event"
  by (simp add: events_get_def)

lemma subscribed_on:
  "on event cb ctx new_id w = Inr w' \<Longrightarrow>
     subscribed w' event = subscribed w event @ [\<lparr> l_callback = cb, l_context = ctx, l_id = new_id \<rparr>]"
  by (auto simp: on_def subscribed_def events_get_def Let_def split: option.splits if_splits entry.splits)

lemma emit_cases:
  "fst (emit beh event data w) = (if events_get w event = Inherited then Inl NotIterable else Inr ())"
  "fst (snd (emit beh event data w)) = map (\<lambda>l. (l_callback l, l_context l, data)) (subscribed w event)"
proof -
  let ?w1 = "debug_log (''EventBus: Emitting '' @ event) w"
  show "fst (emit beh event data w) = (if events_get w event = Inherited then Inl NotIterable else Inr ())"
  proof (cases "events_get w event")
    case (Registered ls)
    obtain r tr w' where f: "forEach (call_listener beh event data) ls ([], ?w1) = (r, tr, w')"
      by (metis prod_cases3)
    from forEach_call_listener [OF f] f Registered show ?thesis
      by (simp add: emit_def Let_def)
  qed (simp_all add: emit_def Let_def)
  show "fst (snd (emit beh event data w)) = map (\<lambda>l. (l_callback l, l_context l, data)) (subscribed w event)"
  proof (cases "events_get w event")
    case (Registered ls)
    obtain r tr w' where f: "forEach (call_listener beh event data) ls ([], ?w1) = (r, tr, w')"
      by (metis prod_cases3)
    from Registered have "subscribed w event = ls"
      by (auto simp: events_get_def subscribed_def split: option.splits if_splits)
    with forEach_call_listener [OF f] f Registered show ?thesis
      by (simp add: emit_def Let_def)
  next
    case Undefined
    then have "subscribed w event = []"
      by (auto simp: events_get_def subscribed_def split: option.splits if_splits)
    with Undefined show ?thesis by (simp add: emit_def Let_def)
  next
    case Inherited
    then have "subscribed w event = []"
      by (auto simp: events_get_def subscribed_def split: option.splits if_splits)
    with Inherited show ?thesis by (simp add: emit_def Let_def)
  qed
qed

text \<open>
  Claim C10. Whatever the callbacks do (throw, subscribe, unsubscribe), the invocations of
  \<^verbatim>\<open>emit\<close> are exactly the listeners that were subscribed to the event when \<^verbatim>\<open>emit\<close>
  was called: each once, in the order of the array, with the data as argument; the order of the
  array is the order of subscription, since \<^verbatim>\<open>on\<close> appends. \<^verbatim>\<open>emit\<close> never passes a
  listener's exception on, and it returns normally for every event name that is not a property
  name of \<^verbatim>\<open>Object.prototype\<close> (for those, with no listener subscribed, the spread throws
  a \<^verbatim>\<open>TypeError\<close> of its own).
\<close>

theorem emit_invokes_all:
  "fst (emit beh event data w) \<noteq> Inl (ListenerError err) \<and>
   (event \<notin> inherited_names \<longrightarrow> fst (emit beh event data w) = Inr ()) \<and>
   fst (snd (emit beh event data w)) = map (\<lambda>l. (l_callback l, l_context l, data)) (subscribed w event) \<and>
   (on event cb ctx new_id w = Inr w' \<longrightarrow>
      subscribed w' event = subscribed w event @ [\<lparr> l_callback = cb, l_context = ctx, l_id = new_id \<rparr>])"
proof (intro conjI impI)
  show "fst (emit beh event data w) \<noteq> Inl (ListenerError err)"
    unfolding emit_cases(1) by simp
  show "fst (emit beh event data w) = Inr ()" if "event \<notin> inherited_names"
    unfolding emit_cases(1) using that by (simp add: events_get_def split: option.splits)
  show "fst (snd (emit beh event data w)) = map (\<lambda>l. (l_callback l, l_context l, data)) (subscribed w event)"
    by (rule emit_cases(2))
  show "subscribed w' event = subscribed w event @ [\<lparr> l_callback = cb, l_context = ctx, l_id = new_id \<rparr>]"
    if "on event cb ctx new_id w = Inr w'"
    using that by (rule subscribed_on)
qed

text \<open>
  In the example both listeners are called, although the first one throws and removes the
  second from the table; \<^verbatim>\<open>emit\<close> returns, and the error is on the console.
\<close>

lemma two_listeners_eq:
  "on ''tick'' 0 None ''a'' empty_bus =
     Inr (empty_bus\<lparr>events := [''tick'' \<mapsto> [\<lparr> l_callback = 0, l_context = None, l_id = ''a'' \<rparr>]]\<rparr>)"
  "on ''tick'' 1 (Some 5) ''b''
      (empty_bus\<lparr>events := [''tick'' \<mapsto> [\<lparr> l_callback = 0, l_context = None, l_id = ''a'' \<rparr>]]\<rparr>) =
     Inr two_listeners"
  by (simp_all add: on_def events_get_def inherited_names_def empty_bus_def debug_log_def
      two_listeners_def Let_def)

theorem emit_invokes_all_witness:
  "''tick'' \<notin> inherited_names \<and>
   subscribed two_listeners ''tick'' =
     [\<lparr> l_callback = 0, l_context = None, l_id = ''a'' \<rparr>,
      \<lparr> l_callback = 1, l_context = Some 5, l_id = ''b'' \<rparr>] \<and>
   fst (emit rude_listener ''tick'' 7 two_listeners) = Inr () \<and>
   fst (snd (emit rude_listener ''tick'' 7 two_listeners)) = [(0, None, 7), (1, Some 5, 7)] \<and>
   map l_callback (subscribed (snd (snd (emit rude_listener ''tick'' 7 two_listeners))) ''tick'') = [0] \<and>
   console (snd (snd (emit rude_listener ''tick'' 7 two_listeners))) =
     [''EventBus: Error in event listener for tick'']"
proof -
  have n: "''tick'' \<notin> inherited_names" by (simp add: inherited_names_def)
  have s0: "subscribed (empty_bus\<lparr>events := [''tick'' \<mapsto> [\<lparr> l_callback = 0, l_context = None, l_id = ''a'' \<rparr>]]\<rparr>) ''tick''
              = [\<lparr> l_callback = 0, l_context = None, l_id = ''a'' \<rparr>]"
    by (simp add: subscribed_def)
  from emit_invokes_all [of rude_listener "''tick''" 7 two_listeners _
      0 None "''a''" empty_bus]
  have "fst (emit rude_listener ''tick'' 7 two_listeners) = Inr ()"
    and "fst (snd (emit rude_listener ''tick'' 7 two_listeners)) =
           map (\<lambda>l. (l_callback l, l_context l, 7)) (subscribed two_listeners ''tick'')"
    using n by blast+
  moreover from emit_invokes_all [of rude_listener "''tick''" 7
      "empty_bus\<lparr>events := [''tick'' \<mapsto> [\<lparr> l_callback = 0, l_context = None, l_id = ''a'' \<rparr>]]\<rparr>" _
      1 "Some 5" "''b''" two_listeners]
  have "subscribed two_listeners ''tick'' =
     [\<lparr> l_callback = 0, l_context = None, l_id = ''a'' \<rparr>,
      \<lparr> l_callback = 1, l_context = Some 5, l_id = ''b'' \<rparr>]"
    using two_listeners_eq(2) s0 by simp
  moreover have "map l_callback (subscribed (snd (snd (emit rude_listener ''tick'' 7 two_listeners))) ''tick'') = [0]"
    "console (snd (snd (emit rude_listener ''tick'' 7 two_listeners))) =
       [''EventBus: Error in event listener for tick'']"
    by (simp_all add: emit_def on_def off_def events_get_def inherited_names_def empty_bus_def
        debug_log_def two_listeners_def call_listener_def rude_listener_def subscribed_def Let_def)
  ultimately show ?thesis using n by simp
qed

section \<open>Results about the configuration\<close>

text \<open>
  Claim C9 describes the configuration as frozen for good. After the startup freeze the
  nested \<^verbatim>\<open>threeD\<close> object is still writable, and \<^verbatim>\<open>fitCameraToMaze\<close> on a scene
  holding a 31 by 31 maze and a camera overwrites \<^verbatim>\<open>MazeConfig.threeD.cameraDistance\<close>:
  50 becomes 31 * 4 * 0.8 = 99.2.
\<close>

theorem fitCameraToMaze_modifies_config:
  "cameraDistance (threeD config_startup) = 50 \<and>
   MazeConfig \<in> frozen config_startup \<and>
   map_sum id (\<lambda>r. cameraDistance (threeD (fst r))) (fitCameraToMaze config_startup loaded_scene)
     = Inr (496 / 5)"
  by (simp add: config_startup_def Object_freeze_def MazeConfig_literal_def fitCameraToMaze_def
      loaded_scene_def scene_constructor_def set_cameraDistance_def setCameraView_overhead_def
      getMazeCenter_def Let_def)

section \<open>Graphs with unique simple paths\<close>

lemma simple_path_refl: "simple_path E p p xs \<longleftrightarrow> xs = [p]"
proof
  assume a: "simple_path E p p xs"
  then obtain x ys where xs: "xs = x # ys" by (cases xs) (auto simp: simple_path_def)
  with a have "x = p" "last (x # ys) = p" "distinct (x # ys)" by (auto simp: simple_path_def)
  then have "ys = []" by (cases ys) (auto split: if_splits)
  with xs \<open>x = p\<close> show "xs = [p]" by simp
qed (simp add: simple_path_def)

lemma successively_subset:
  "successively (\<lambda>a b. (a, b) \<in> E) xs \<Longrightarrow> E \<subseteq> V \<times> V \<Longrightarrow> xs \<noteq> [] \<Longrightarrow> hd xs \<in> V \<Longrightarrow> set xs \<subseteq> V"
proof (induction xs)
  case Nil
  then show ?case by simp
next
  case (Cons x xs)
  show ?case
  proof (cases xs)
    case Nil
    with Cons.prems show ?thesis by simp
  next
    case (Cons y ys)
    with Cons.prems have "(x, y) \<in> E" "successively (\<lambda>a b. (a, b) \<in> E) xs" by simp_all
    with Cons.prems Cons.IH Cons show ?thesis by auto
  qed
qed

lemma simple_path_subset:
  "simple_path E p q xs \<Longrightarrow> E \<subseteq> V \<times> V \<Longrightarrow> p \<in> V \<Longrightarrow> set xs \<subseteq> V"
  unfolding simple_path_def using successively_subset by metis

lemma simple_path_rev:
  assumes "sym E"
  shows "simple_path E p q xs \<longleftrightarrow> simple_path E q p (rev xs)"
proof -
  have "successively (\<lambda>a b. (a, b) \<in> E) (rev xs) \<longleftrightarrow> successively (\<lambda>a b. (a, b) \<in> E) xs"
    unfolding successively_rev
    by (rule successively_cong) (use assms in \<open>auto simp: sym_def\<close>)
  then show ?thesis
    unfolding simple_path_def by (auto simp: hd_rev last_rev)
qed

lemma successively_avoid:
  assumes "v \<notin> set xs"
  shows "successively (\<lambda>a b. (a, b) \<in> E \<union> {(u, v), (v, u)}) xs \<longleftrightarrow> successively (\<lambda>a b. (a, b) \<in> E) xs"
  by (rule successively_cong) (use assms in auto)

lemma leaf_interior:
  assumes s: "successively (\<lambda>a b. (a, b) \<in> E') xs" and d: "distinct xs" and v: "v \<in> set xs"
    and n1: "\<And>a. (a, v) \<in> E' \<Longrightarrow> a = u" and n2: "\<And>a. (v, a) \<in> E' \<Longrightarrow> a = u"
  shows "hd xs = v \<or> last xs = v"
proof (rule ccontr)
  assume c: "\<not> (hd xs = v \<or> last xs = v)"
  from v obtain as bs where xs: "xs = as @ v # bs" by (meson split_list)
  with c have "as \<noteq> []" "bs \<noteq> []" by (auto simp: hd_append split: if_splits)
  then obtain as' a b bs' where ab: "as = as' @ [a]" "bs = b # bs'"
    by (metis rev_exhaust list.exhaust)
  from s have "(a, v) \<in> E'" "(v, b) \<in> E'"
    unfolding xs ab by (auto simp: successively_append_iff successively_Cons)
  then have "a = u" "b = u" using n1 n2 by blast+
  with d show False unfolding xs ab by simp
qed

lemma unique_paths_leaf:
  assumes U: "unique_paths V E" and sym: "sym E" and sub: "E \<subseteq> V \<times> V"
    and u: "u \<in> V" and v: "v \<notin> V"
  shows "unique_paths (insert v V) (E \<union> {(u, v), (v, u)})"
proof -
  let ?E = "E \<union> {(u, v), (v, u)}"
  have uv: "u \<noteq> v" using u v by auto
  have sym': "sym ?E" using sym by (auto simp: sym_def)
  have n1: "\<And>a. (a, v) \<in> ?E \<Longrightarrow> a = u" and n2: "\<And>a. (v, a) \<in> ?E \<Longrightarrow> a = u"
    using sub v by auto
  \<comment> \<open>paths between old vertices are the old paths\<close>
  have old: "simple_path ?E p q xs \<longleftrightarrow> simple_path E p q xs" if "p \<in> V" "q \<in> V" for p q xs
  proof
    assume a: "simple_path ?E p q xs"
    have "v \<notin> set xs"
    proof
      assume "v \<in> set xs"
      with a have "hd xs = v \<or> last xs = v"
        unfolding simple_path_def using leaf_interior [of ?E xs v u] n1 n2 by blast
      with a that v show False by (auto simp: simple_path_def)
    qed
    with a show "simple_path E p q xs"
      unfolding simple_path_def using successively_avoid [of v xs E u] by simp
  next
    assume a: "simple_path E p q xs"
    then have "set xs \<subseteq> V" using simple_path_subset sub that(1) by metis
    then have "v \<notin> set xs" using v by auto
    with a show "simple_path ?E p q xs"
      unfolding simple_path_def using successively_avoid [of v xs E u] by simp
  qed
  \<comment> \<open>paths from the new vertex start with the edge to u\<close>
  have new: "simple_path ?E v q xs \<longleftrightarrow> (\<exists>ys. xs = v # ys \<and> simple_path E u q ys)" if "q \<in> V" for q xs
  proof
    assume a: "simple_path ?E v q xs"
    then obtain ys where xs: "xs = v # ys" by (cases xs) (auto simp: simple_path_def)
    have "q \<noteq> v" using that v by auto
    with a xs have ne: "ys \<noteq> []" by (auto simp: simple_path_def)
    with a xs have e: "(v, hd ys) \<in> ?E" and s: "successively (\<lambda>a b. (a, b) \<in> ?E) ys"
      by (auto simp: simple_path_def successively_Cons)
    from e have "hd ys = u" using n2 by blast
    moreover from a xs have "v \<notin> set ys" "distinct ys" by (auto simp: simple_path_def)
    moreover from a xs ne have "last ys = q" by (auto simp: simple_path_def)
    ultimately have "simple_path E u q ys"
      unfolding simple_path_def using ne s successively_avoid [of v ys E u] by simp
    with xs show "\<exists>ys. xs = v # ys \<and> simple_path E u q ys" by blast
  next
    assume "\<exists>ys. xs = v # ys \<and> simple_path E u q ys"
    then obtain ys where xs: "xs = v # ys" and a: "simple_path E u q ys" by blast
    from a have "set ys \<subseteq> V" using simple_path_subset sub u by metis
    then have nv: "v \<notin> set ys" using v by auto
    from a have "ys \<noteq> []" "hd ys = u" by (auto simp: simple_path_def)
    with a nv show "simple_path ?E v q xs"
      unfolding xs simple_path_def using successively_avoid [of v ys E u]
      by (auto simp: successively_Cons)
  qed
  have from_new: "\<exists>!xs. simple_path ?E v q xs" if qV: "q \<in> V" for q
  proof -
    from U u qV obtain ys where ys: "simple_path E u q ys" "\<And>zs. simple_path E u q zs \<Longrightarrow> zs = ys"
      unfolding unique_paths_def by (metis (no_types, lifting))
    show ?thesis
    proof (rule ex1I [of _ "v # ys"])
      show "simple_path ?E v q (v # ys)" using new [OF qV] ys(1) by blast
    next
      fix xs assume "simple_path ?E v q xs"
      then obtain zs where "xs = v # zs" "simple_path E u q zs" using new [OF qV] by blast
      with ys(2) show "xs = v # ys" by blast
    qed
  qed
  have to_new: "\<exists>!xs. simple_path ?E p v xs" if pV: "p \<in> V" for p
  proof -
    from from_new [OF pV] obtain ys where
      ys: "simple_path ?E v p ys" "\<And>zs. simple_path ?E v p zs \<Longrightarrow> zs = ys"
      by (metis (no_types, lifting))
    show ?thesis
    proof (rule ex1I [of _ "rev ys"])
      show "simple_path ?E p v (rev ys)" using ys(1) simple_path_rev [OF sym'] by blast
    next
      fix xs assume "simple_path ?E p v xs"
      then have "simple_path ?E v p (rev xs)" using simple_path_rev [OF sym'] by blast
      then have "rev xs = ys" by (rule ys(2))
      then show "xs = rev ys" by auto
    qed
  qed
  show ?thesis
    unfolding unique_paths_def
  proof (intro ballI)
    fix p q assume p: "p \<in> insert v V" and q: "q \<in> insert v V"
    show "\<exists>!xs. simple_path ?E p q xs"
    proof (cases "p = v")
      case pv: True
      show ?thesis
      proof (cases "q = v")
        case True
        with pv show ?thesis by (simp add: simple_path_refl)
      next
        case False
        with q pv from_new show ?thesis by auto
      qed
    next
      case pv: False
      show ?thesis
      proof (cases "q = v")
        case True
        with p pv to_new show ?thesis by auto
      next
        case False
        with p q pv have "p \<in> V" "q \<in> V" by auto
        with U old show ?thesis unfolding unique_paths_def by simp
      qed
    qed
  qed
qed

lemma unique_paths_single: "unique_paths {p} {}"
  by (simp add: unique_paths_def simple_path_refl)

lemma simple_path_rtrancl: "simple_path E p q xs \<Longrightarrow> (p, q) \<in> E\<^sup>*"
proof (induction xs arbitrary: p)
  case Nil
  then show ?case by (simp add: simple_path_def)
next
  case (Cons x xs)
  show ?case
  proof (cases xs)
    case Nil
    with Cons.prems show ?thesis by (auto simp: simple_path_def)
  next
    case (Cons y ys)
    with Cons.prems have "x = p" "(p, y) \<in> E" "simple_path E y q xs"
      by (auto simp: simple_path_def)
    with Cons.IH show ?thesis by (meson converse_rtrancl_into_rtrancl)
  qed
qed

section \<open>The passage graph under one carving\<close>

lemma adjacent_sym: "adjacent p q \<longleftrightarrow> adjacent q p"
  by (auto simp: adjacent_def)

lemma adjacent_irrefl [simp]: "\<not> adjacent p p"
  by (simp add: adjacent_def)

lemma adjacent_cases:
  "adjacent p q \<longleftrightarrow>
     q = (fst p + 1, snd p) \<or> q = (fst p - 1, snd p) \<or> q = (fst p, snd p + 1) \<or> q = (fst p, snd p - 1)"
  by (cases p; cases q) (auto simp: adjacent_def)

lemma shape_adjacent_room:
  assumes "corridor_shape P" "q \<in> P" "adjacent q r" "room r"
  shows "r \<in> P"
proof -
  from assms(1,2) consider "room q"
    | "even (fst q)" "odd (snd q)" "(fst q - 1, snd q) \<in> P" "(fst q + 1, snd q) \<in> P"
    | "odd (fst q)" "even (snd q)" "(fst q, snd q - 1) \<in> P" "(fst q, snd q + 1) \<in> P"
    unfolding corridor_shape_def by blast
  then show ?thesis
  proof cases
    case 1
    with assms(3,4) show ?thesis by (auto simp: adjacent_cases room_def)
  next
    case 2
    with assms(3,4) show ?thesis by (auto simp: adjacent_cases room_def)
  next
    case 3
    with assms(3,4) show ?thesis by (auto simp: adjacent_cases room_def)
  qed
qed

lemma shape_even_sum:
  assumes "corridor_shape P" "q \<in> P" "even (fst q + snd q)"
  shows "room q"
  using assms unfolding corridor_shape_def room_def by fastforce

lemma sym_adjacent_pairs: "sym (adjacent_pairs P)"
  by (auto simp: sym_def adjacent_pairs_def adjacent_sym)

lemma adjacent_pairs_subset: "adjacent_pairs P \<subseteq> P \<times> P"
  by (auto simp: adjacent_pairs_def)

lemma adjacent_pairs_extend:
  assumes "c \<in> P" "w \<notin> P" "n \<notin> P" "adjacent c w" "adjacent w n"
    and "\<And>q. q \<in> P \<Longrightarrow> adjacent w q \<Longrightarrow> q = c"
    and "\<And>q. q \<in> P \<Longrightarrow> \<not> adjacent n q"
  shows "adjacent_pairs (insert n (insert w P)) =
           (adjacent_pairs P \<union> {(c, w), (w, c)}) \<union> {(w, n), (n, w)}"
proof (rule set_eqI)
  fix e :: "coord \<times> coord"
  obtain p q where e: "e = (p, q)" by (cases e)
  have s: "adjacent w c" "adjacent n w" using assms(4,5) adjacent_sym by blast+
  have l: "\<And>q. q \<in> P \<Longrightarrow> adjacent q w \<Longrightarrow> q = c" "\<And>q. q \<in> P \<Longrightarrow> \<not> adjacent q n"
    using assms(6,7) adjacent_sym by blast+
  show "e \<in> adjacent_pairs (insert n (insert w P)) \<longleftrightarrow>
        e \<in> (adjacent_pairs P \<union> {(c, w), (w, c)}) \<union> {(w, n), (n, w)}"
  proof
    assume "e \<in> adjacent_pairs (insert n (insert w P))"
    then have pq: "p = n \<or> p = w \<or> p \<in> P" "q = n \<or> q = w \<or> q \<in> P" "adjacent p q"
      by (auto simp: e adjacent_pairs_def)
    from pq(1) show "e \<in> (adjacent_pairs P \<union> {(c, w), (w, c)}) \<union> {(w, n), (n, w)}"
    proof (elim disjE)
      assume p: "p = n"
      with pq(2,3) assms(7) have "q = w" using adjacent_irrefl by blast
      with p e show ?thesis by simp
    next
      assume p: "p = w"
      with pq(2,3) assms(6) have "q = n \<or> q = c" using adjacent_irrefl by blast
      with p e show ?thesis by auto
    next
      assume p: "p \<in> P"
      from pq(2) show ?thesis
      proof (elim disjE)
        assume "q = n"
        with p pq(3) l(2) show ?thesis by blast
      next
        assume q: "q = w"
        with p pq(3) l(1) have "p = c" by blast
        with q e show ?thesis by simp
      next
        assume "q \<in> P"
        with p pq(3) e show ?thesis by (simp add: adjacent_pairs_def)
      qed
    qed
  next
    assume "e \<in> (adjacent_pairs P \<union> {(c, w), (w, c)}) \<union> {(w, n), (n, w)}"
    then consider "e \<in> adjacent_pairs P" | "e = (c, w)" | "e = (w, c)" | "e = (w, n)" | "e = (n, w)"
      by blast
    then show "e \<in> adjacent_pairs (insert n (insert w P))"
    proof cases
      case 1
      then show ?thesis by (simp add: adjacent_pairs_def e)
    qed (use assms(1,4,5) s in \<open>simp_all add: adjacent_pairs_def\<close>)
  qed
qed

lemma graph_extend:
  assumes fin: "finite P" and U: "unique_paths P (adjacent_pairs P)"
    and cnt: "card (adjacent_pairs P) + 2 = 2 * card P"
    and "c \<in> P" "w \<notin> P" "n \<notin> P" "adjacent c w" "adjacent w n"
    and "\<And>q. q \<in> P \<Longrightarrow> adjacent w q \<Longrightarrow> q = c"
    and "\<And>q. q \<in> P \<Longrightarrow> \<not> adjacent n q"
  shows "unique_paths (insert n (insert w P)) (adjacent_pairs (insert n (insert w P)))"
    and "card (adjacent_pairs (insert n (insert w P))) + 2 = 2 * card (insert n (insert w P))"
proof -
  let ?E = "adjacent_pairs P"
  let ?E1 = "?E \<union> {(c, w), (w, c)}"
  have E': "adjacent_pairs (insert n (insert w P)) = ?E1 \<union> {(w, n), (n, w)}"
    using assms(4-10) by (rule adjacent_pairs_extend)
  have wn: "w \<noteq> n" using assms(8) by auto
  have cw: "c \<noteq> w" using assms(7) by auto
  have cn: "c \<noteq> n" using assms(4,6) by auto
  have U1: "unique_paths (insert w P) ?E1"
    using U sym_adjacent_pairs adjacent_pairs_subset assms(4,5) by (rule unique_paths_leaf)
  have "sym ?E1" using sym_adjacent_pairs [of P] by (auto simp: sym_def)
  moreover have "?E1 \<subseteq> insert w P \<times> insert w P"
    using adjacent_pairs_subset [of P] assms(4) by auto
  moreover have "w \<in> insert w P" by simp
  moreover have "n \<notin> insert w P" using assms(6) wn by auto
  ultimately have "unique_paths (insert n (insert w P)) (?E1 \<union> {(w, n), (n, w)})"
    by (rule unique_paths_leaf [OF U1])
  then show "unique_paths (insert n (insert w P)) (adjacent_pairs (insert n (insert w P)))"
    unfolding E' .
  have finE: "finite ?E" using fin adjacent_pairs_subset [of P] by (meson finite_SigmaI finite_subset)
  have notin: "(c, w) \<notin> ?E" "(w, c) \<notin> ?E" "(w, n) \<notin> ?E" "(n, w) \<notin> ?E"
    using adjacent_pairs_subset [of P] assms(5,6) by auto
  have "card (?E1 \<union> {(w, n), (n, w)}) = card ?E + 4"
  proof -
    have "?E1 \<union> {(w, n), (n, w)} = insert (c, w) (insert (w, c) (insert (w, n) (insert (n, w) ?E)))"
      by auto
    then show ?thesis using finE notin wn cw cn by simp
  qed
  moreover have "card (insert n (insert w P)) = card P + 2"
    using fin assms(5,6) wn by simp
  ultimately show "card (adjacent_pairs (insert n (insert w P))) + 2 = 2 * card (insert n (insert w P))"
    unfolding E' using cnt by simp
qed

section \<open>The invariant of a recursive-backtracking run\<close>

lemma in_cells: "p \<in> cells m \<longleftrightarrow> in_grid m p"
  by (cases p) (auto simp: cells_def in_grid_def isValidCoordinate_def)

lemma finite_cells: "finite (cells m)"
  by (simp add: cells_def)

lemma finite_passage: "finite (passage m)"
  by (simp add: passage_def finite_cells)

lemma cells_setCell [simp]: "cells (setCell m x y p) = cells m"
  by (simp add: cells_def)

lemma passage_setCell:
  "passage (setCell m x y (cellState False v cu pa)) =
     (if (x, y) \<in> cells m then insert (x, y) (passage m) else passage m)"
  by (auto simp: passage_def getCell_def)

lemma visited_setCell:
  "visited_cells (setCell m x y (cellState w True cu pa)) =
     (if (x, y) \<in> cells m then insert (x, y) (visited_cells m) else visited_cells m)"
  by (auto simp: visited_cells_def getCell_def)

lemma wall_between_simps:
  "wall_between (cx, cy) (cx, cy - 2) = (cx, cy - 1)"
  "wall_between (cx, cy) (cx + 2, cy) = (cx + 1, cy)"
  "wall_between (cx, cy) (cx, cy + 2) = (cx, cy + 1)"
  "wall_between (cx, cy) (cx - 2, cy) = (cx - 1, cy)"
  by (simp_all add: wall_between_def)

lemma adjacent_pair: "adjacent (a, b) (c, d) \<longleftrightarrow> \<bar>a - c\<bar> + \<bar>b - d\<bar> = 1"
  by (simp add: adjacent_def)

lemma room_pair: "room (a, b) \<longleftrightarrow> odd a \<and> odd b"
  by (simp add: room_def)

lemma room_adjacent_vertical:
  fixes cx cy qx qy :: int
  assumes "odd cx" "odd cy" "odd qx" "odd qy" "\<bar>cx - qx\<bar> + \<bar>cy + 1 - qy\<bar> = 1"
  shows "(qx = cx \<and> qy = cy) \<or> (qx = cx \<and> qy = cy + 2)"
proof -
  have "cy + 1 \<noteq> qy" using assms(2,4) by presburger
  with assms(5) have "cx = qx" "\<bar>cy + 1 - qy\<bar> = 1" by linarith+
  then show ?thesis by linarith
qed

lemma room_adjacent_horizontal:
  fixes cx cy qx qy :: int
  assumes "odd cx" "odd cy" "odd qx" "odd qy" "\<bar>cx + 1 - qx\<bar> + \<bar>cy - qy\<bar> = 1"
  shows "(qx = cx \<and> qy = cy) \<or> (qx = cx + 2 \<and> qy = cy)"
proof -
  have "cx + 1 \<noteq> qx" using assms(1,3) by presburger
  with assms(5) have "cy = qy" "\<bar>cx + 1 - qx\<bar> = 1" by linarith+
  then show ?thesis by linarith
qed

lemma carve_geometry_vertical:
  assumes "odd cx" "odd cy"
  shows "adjacent (cx, cy) (cx, cy + 1)" "adjacent (cx, cy + 1) (cx, cy + 2)"
    "adjacent (cx, cy + 2) (cx, cy + 1)" "adjacent (cx, cy + 1) (cx, cy)"
    "room q \<Longrightarrow> adjacent (cx, cy + 1) q \<Longrightarrow> q = (cx, cy) \<or> q = (cx, cy + 2)"
proof -
  show "adjacent (cx, cy) (cx, cy + 1)" "adjacent (cx, cy + 1) (cx, cy + 2)"
    "adjacent (cx, cy + 2) (cx, cy + 1)" "adjacent (cx, cy + 1) (cx, cy)"
    by (simp_all add: adjacent_pair)
  assume q: "room q" "adjacent (cx, cy + 1) q"
  obtain qx qy where e: "q = (qx, qy)" by (cases q)
  from q room_adjacent_vertical [OF assms, of qx qy]
  show "q = (cx, cy) \<or> q = (cx, cy + 2)"
    unfolding e adjacent_pair room_pair by simp
qed

lemma carve_geometry_horizontal:
  assumes "odd cx" "odd cy"
  shows "adjacent (cx, cy) (cx + 1, cy)" "adjacent (cx + 1, cy) (cx + 2, cy)"
    "adjacent (cx + 2, cy) (cx + 1, cy)" "adjacent (cx + 1, cy) (cx, cy)"
    "room q \<Longrightarrow> adjacent (cx + 1, cy) q \<Longrightarrow> q = (cx, cy) \<or> q = (cx + 2, cy)"
proof -
  show "adjacent (cx, cy) (cx + 1, cy)" "adjacent (cx + 1, cy) (cx + 2, cy)"
    "adjacent (cx + 2, cy) (cx + 1, cy)" "adjacent (cx + 1, cy) (cx, cy)"
    by (simp_all add: adjacent_pair)
  assume q: "room q" "adjacent (cx + 1, cy) q"
  obtain qx qy where e: "q = (qx, qy)" by (cases q)
  from q room_adjacent_horizontal [OF assms, of qx qy]
  show "q = (cx, cy) \<or> q = (cx + 2, cy)"
    unfolding e adjacent_pair room_pair by simp
qed

lemma carving_south: "odd cx \<Longrightarrow> odd cy \<Longrightarrow> carving (cx, cy) (cx, cy + 1) (cx, cy + 2)"
  unfolding carving_def using carve_geometry_vertical [of cx cy]
  by (simp add: room_pair)

lemma carving_east: "odd cx \<Longrightarrow> odd cy \<Longrightarrow> carving (cx, cy) (cx + 1, cy) (cx + 2, cy)"
  unfolding carving_def using carve_geometry_horizontal [of cx cy]
  by (simp add: room_pair)

lemma carving_sym: "carving c w n \<Longrightarrow> carving n w c"
  unfolding carving_def using adjacent_sym by (simp add: insert_commute) blast

lemma carving_north: "odd cx \<Longrightarrow> odd cy \<Longrightarrow> carving (cx, cy) (cx, cy - 1) (cx, cy - 2)"
  using carving_sym [OF carving_south [of cx "cy - 2"]] by simp

lemma carving_west: "odd cx \<Longrightarrow> odd cy \<Longrightarrow> carving (cx, cy) (cx - 1, cy) (cx - 2, cy)"
  using carving_sym [OF carving_east [of "cx - 2" cy]] by simp

lemma carve_geometry:
  assumes "room c" "n \<in> {(fst c, snd c - 2), (fst c + 2, snd c), (fst c, snd c + 2), (fst c - 2, snd c)}"
  shows "carving c (wall_between c n) n"
proof -
  obtain cx cy where c: "c = (cx, cy)" by (cases c)
  from assms(1) have o: "odd cx" "odd cy" by (simp_all add: room_def c)
  from assms(2) consider "n = (cx, cy - 2)" | "n = (cx + 2, cy)" | "n = (cx, cy + 2)" | "n = (cx - 2, cy)"
    unfolding c by auto
  then show ?thesis
  proof cases
    case 1
    then show ?thesis unfolding c using carving_north [OF o] by (simp add: wall_between_simps)
  next
    case 2
    then show ?thesis unfolding c using carving_east [OF o] by (simp add: wall_between_simps)
  next
    case 3
    then show ?thesis unfolding c using carving_south [OF o] by (simp add: wall_between_simps)
  next
    case 4
    then show ?thesis unfolding c using carving_west [OF o] by (simp add: wall_between_simps)
  qed
qed

lemma wall_between_in_grid:
  assumes "in_grid m c" "in_grid m n"
  shows "in_grid m (wall_between c n)"
proof -
  have b: "min a b \<le> a + (b - a) div 2 \<and> a + (b - a) div 2 \<le> max a b" for a b :: int
    by (cases "a \<le> b") (simp_all add: min_def max_def, linarith+)
  from b [of "fst c" "fst n"] b [of "snd c" "snd n"] assms show ?thesis
    unfolding in_grid_def isValidCoordinate_def wall_between_def by (simp add: min_def max_def split: if_splits)
qed

lemma passage_carve:
  assumes "c \<in> cells (maze s)" "n \<in> cells (maze s)" "wall_between c n \<in> cells (maze s)"
  shows "passage (maze (carve s c n)) = insert n (insert (wall_between c n) (insert c (passage (maze s))))"
    and "visited_cells (maze (carve s c n)) =
           insert n (insert (wall_between c n) (insert c (visited_cells (maze s))))"
  using assms unfolding wall_between_def
  by (auto simp: carve_def Let_def passage_setCell visited_setCell)

lemma adjacent_parity: "adjacent p q \<Longrightarrow> odd (fst p + snd p) \<Longrightarrow> even (fst q + snd q)"
proof -
  assume a: "adjacent p q" "odd (fst p + snd p)"
  obtain a b c d where e: "p = (a, b)" "q = (c, d)" by (cases p; cases q)
  from a show ?thesis unfolding e adjacent_pair by simp presburger
qed

lemma passage_subset_cells: "passage m \<subseteq> cells m"
  by (auto simp: passage_def)

lemma carving_shape:
  assumes "carving c w n"
  shows "(even (fst w) \<and> odd (snd w) \<and> (fst w - 1, snd w) \<in> {c, n} \<and> (fst w + 1, snd w) \<in> {c, n}) \<or>
      (odd (fst w) \<and> even (snd w) \<and> (fst w, snd w - 1) \<in> {c, n} \<and> (fst w, snd w + 1) \<in> {c, n})"
  using assms unfolding carving_def by (elim conjE)

lemma corridor_shape_extend:
  assumes "corridor_shape P" "carving c w n" "c \<in> P"
  shows "corridor_shape (insert n (insert w P))"
  unfolding corridor_shape_def
proof
  fix p assume "p \<in> insert n (insert w P)"
  then consider "p = n" | "p = w" | "p \<in> P" by blast
  then show "room p
        \<or> (even (fst p) \<and> odd (snd p) \<and> (fst p - 1, snd p) \<in> insert n (insert w P)
              \<and> (fst p + 1, snd p) \<in> insert n (insert w P))
        \<or> (odd (fst p) \<and> even (snd p) \<and> (fst p, snd p - 1) \<in> insert n (insert w P)
              \<and> (fst p, snd p + 1) \<in> insert n (insert w P))"
  proof cases
    case 1
    with assms(2) show ?thesis by (simp add: carving_def)
  next
    case 2
    have "{c, n} \<subseteq> insert n (insert w P)" using assms(3) by simp
    with carving_shape [OF assms(2)] show ?thesis unfolding 2 by blast
  next
    case 3
    with assms(1) have "room p
        \<or> (even (fst p) \<and> odd (snd p) \<and> (fst p - 1, snd p) \<in> P \<and> (fst p + 1, snd p) \<in> P)
        \<or> (odd (fst p) \<and> even (snd p) \<and> (fst p, snd p - 1) \<in> P \<and> (fst p, snd p + 1) \<in> P)"
      unfolding corridor_shape_def by blast
    then show ?thesis by blast
  qed
qed

lemma maze_inv_carve:
  assumes inv: "maze_inv s" and cur: "this_current s = Some c"
    and nb: "n \<in> set (getUnvisitedNeighbors s (fst c) (snd c))"
  shows "maze_inv (carve s c n)"
proof -
  let ?m = "maze s" and ?P = "passage (maze s)" and ?w = "wall_between c n"
  let ?P' = "insert n (insert ?w ?P)"
  from inv cur have st: "stepSize s = 2" and rc: "room c" and cP: "c \<in> ?P"
    and stk: "\<forall>p \<in> set (stack s). room p \<and> p \<in> ?P"
    and VP: "visited_cells ?m = ?P" and shape: "corridor_shape ?P"
    and U: "unique_paths ?P (adjacent_pairs ?P)"
    and cnt: "card (adjacent_pairs ?P) + 2 = 2 * card ?P"
    and rw: "card {p \<in> ?P. \<not> room p} + 1 = card {p \<in> ?P. room p}"
    unfolding maze_inv_def passage_edges_def by auto
  have cand: "n \<in> {(fst c, snd c - 2), (fst c + 2, snd c), (fst c, snd c + 2), (fst c - 2, snd c)}"
    using neighbors_candidates [OF nb] st by simp
  have car: "carving c ?w n" using rc cand by (rule carve_geometry)
  have ng: "in_grid ?m n" using neighbors_valid [OF nb] by (simp add: in_grid_def)
  have cg: "in_grid ?m c" using cP passage_subset_cells in_cells by blast
  have wg: "in_grid ?m ?w" using cg ng by (rule wall_between_in_grid)
  have "n \<notin> visited_cells ?m"
    using neighbors_unvisited [OF nb] by (simp add: visited_cells_def getCell_def)
  then have nP: "n \<notin> ?P" using VP by simp
  have rn: "room n" and cw: "adjacent c ?w" and wn: "adjacent ?w n"
    using car by (simp_all add: carving_def)
  have no_n: "\<not> adjacent n q" if "q \<in> ?P" for q
    using shape_adjacent_room [OF shape that _ rn] nP adjacent_sym by blast
  have wP: "?w \<notin> ?P"
    using shape_adjacent_room [OF shape _ wn rn] nP by blast
  have only_c: "q = c" if "q \<in> ?P" "adjacent ?w q" for q
  proof -
    have "odd (fst ?w + snd ?w)" using car by (simp add: carving_def)
    then have "even (fst q + snd q)" using adjacent_parity that(2) by blast
    then have "room q" using shape_even_sum [OF shape that(1)] by simp
    with car that(2) have "q = c \<or> q = n" unfolding carving_def by blast
    with that(1) nP show ?thesis by blast
  qed
  have P': "passage (maze (carve s c n)) = ?P'"
    using passage_carve(1) [of c s n] cg ng wg cP by (simp add: in_cells insert_absorb)
  have V': "visited_cells (maze (carve s c n)) = ?P'"
    using passage_carve(2) [of c s n] cg ng wg cP VP by (simp add: in_cells insert_absorb)
  have G: "unique_paths ?P' (adjacent_pairs ?P')"
    "card (adjacent_pairs ?P') + 2 = 2 * card ?P'"
    using graph_extend [OF finite_passage U cnt cP wP nP cw wn only_c no_n] by blast+
  have S: "corridor_shape ?P'" using shape car cP by (rule corridor_shape_extend)
  have nrw: "\<not> room ?w" using car by (auto simp: carving_def room_def)
  have "{p \<in> ?P'. \<not> room p} = insert ?w {p \<in> ?P. \<not> room p}"
    "{p \<in> ?P'. room p} = insert n {p \<in> ?P. room p}"
    using rn nrw by blast+
  moreover have "card (insert ?w {p \<in> ?P. \<not> room p}) = card {p \<in> ?P. \<not> room p} + 1"
    "card (insert n {p \<in> ?P. room p}) = card {p \<in> ?P. room p} + 1"
    using wP nP by (simp_all add: finite_passage)
  ultimately have RW: "card {p \<in> ?P'. \<not> room p} + 1 = card {p \<in> ?P'. room p}"
    using rw by simp
  have "stepSize (carve s c n) = 2" using st by (simp add: carve_def Let_def)
  moreover have "this_current (carve s c n) = Some n" by (simp add: carve_def Let_def)
  moreover have "stack (carve s c n) = stack s @ [c]" by (simp add: carve_def Let_def)
  moreover have "\<forall>p \<in> set (stack s @ [c]). room p \<and> p \<in> ?P'"
    using stk rc cP by simp
  moreover have "n \<in> ?P'" by simp
  ultimately show ?thesis
    unfolding maze_inv_def passage_edges_def P' V'
    using rn G S RW by simp
qed

lemma passage_remark:
  assumes "p \<in> passage m" "visited_cells m = passage m"
  shows "passage (setCell m (fst p) (snd p) (cellState False True cu pa)) = passage m"
    and "visited_cells (setCell m (fst p) (snd p) (cellState False True cu pa)) = passage m"
  using assms passage_subset_cells [of m]
  by (auto simp: passage_setCell visited_setCell insert_absorb)

lemma maze_inv_backtrack:
  assumes inv: "maze_inv s" and cur: "this_current s = Some c" and ne: "stack s \<noteq> []"
  shows "maze_inv (backtrack s c)"
proof -
  let ?m = "maze s" and ?P = "passage (maze s)"
  let ?m1 = "setCell ?m (fst c) (snd c) (cellState False True False True)"
  let ?t = "last (stack s)"
  from inv cur have cP: "c \<in> ?P" and VP: "visited_cells ?m = ?P"
    and stk: "\<forall>p \<in> set (stack s). room p \<and> p \<in> ?P"
    unfolding maze_inv_def by auto
  have t: "room ?t" "?t \<in> ?P" using stk ne by simp_all
  have m1: "passage ?m1 = ?P" "visited_cells ?m1 = ?P"
    using passage_remark [OF cP VP] by simp_all
  have m2: "passage (maze (backtrack s c)) = ?P" "visited_cells (maze (backtrack s c)) = ?P"
    using passage_remark [of ?t ?m1] t(2) m1 by (simp_all add: backtrack_def Let_def)
  have "stepSize (backtrack s c) = stepSize s" "this_current (backtrack s c) = Some ?t"
    "stack (backtrack s c) = butlast (stack s)"
    by (simp_all add: backtrack_def Let_def)
  moreover have "\<forall>p \<in> set (butlast (stack s)). room p \<and> p \<in> ?P"
    using stk by (meson in_set_butlastD)
  ultimately show ?thesis
    using inv t unfolding maze_inv_def passage_edges_def m2 by simp
qed

lemma maze_inv_finish:
  assumes inv: "maze_inv s" and cur: "this_current s = Some c"
  shows "maze_inv (finish s c)"
proof -
  let ?m = "maze s" and ?P = "passage (maze s)"
  from inv cur have cP: "c \<in> ?P" and VP: "visited_cells ?m = ?P"
    unfolding maze_inv_def by auto
  have m1: "passage (maze (finish s c)) = ?P" "visited_cells (maze (finish s c)) = ?P"
    using passage_remark [OF cP VP] by (simp_all add: finish_def)
  have "stepSize (finish s c) = stepSize s" "this_current (finish s c) = this_current s"
    "stack (finish s c) = stack s"
    by (simp_all add: finish_def)
  then show ?thesis
    using inv unfolding maze_inv_def passage_edges_def m1 by simp
qed

lemma maze_inv_step_return: "maze_inv (snd (step_return s)) = maze_inv s"
  by (simp add: maze_inv_def)

lemma maze_inv_step:
  assumes "maze_inv s" "step rnd s = Inr (result, s')"
  shows "maze_inv s'"
  using assms(2)
proof (cases rule: step_cases)
  case completed
  with assms(1) show ?thesis by simp
next
  case (carve cur nxt)
  then show ?thesis using maze_inv_carve [OF assms(1)] by (simp add: maze_inv_step_return)
next
  case (backtrack cur)
  then show ?thesis using maze_inv_backtrack [OF assms(1)] by (simp add: maze_inv_step_return)
next
  case (finish cur)
  then show ?thesis using maze_inv_finish [OF assms(1)] by (simp add: maze_inv_step_return)
qed

lemma adjacent_pairs_single: "adjacent_pairs {p} = {}"
  by (auto simp: adjacent_pairs_def)

lemma maze_inv_initialize:
  assumes "1 < width m" "1 < height m"
    and fresh: "\<forall>x y. isValidCoordinate x y (width m) (height m) \<longrightarrow>
                  wall (getCell m x y) \<and> \<not> visited (getCell m x y)"
  shows "maze_inv (initialize (constructor m None))"
proof -
  have c: "(1, 1) \<in> cells m" using assms(1,2) by (simp add: cells_def)
  have e: "passage m = {}" "visited_cells m = {}"
    using fresh by (auto simp: passage_def visited_cells_def cells_def isValidCoordinate_def)
  have P: "passage (maze (initialize (constructor m None))) = {(1, 1)}"
    "visited_cells (maze (initialize (constructor m None))) = {(1, 1)}"
    using c e by (simp_all add: initialize_def constructor_def passage_setCell visited_setCell)
  have "stepSize (initialize (constructor m None)) = 2"
    "this_current (initialize (constructor m None)) = Some (1, 1)"
    "stack (initialize (constructor m None)) = []"
    by (simp_all add: initialize_def constructor_def)
  moreover have "{p \<in> {(1, 1) :: coord}. \<not> room p} = {}" "{p \<in> {(1, 1) :: coord}. room p} = {(1, 1)}"
    by (auto simp: room_def)
  ultimately show ?thesis
    unfolding maze_inv_def passage_edges_def P
    by (simp add: room_def corridor_shape_def adjacent_pairs_single unique_paths_single)
qed

section \<open>Termination of the run\<close>

lemma carve_passage:
  assumes inv: "maze_inv s" and cur: "this_current s = Some c"
    and nb: "n \<in> set (getUnvisitedNeighbors s (fst c) (snd c))"
  shows "n \<in> cells (maze s)" "n \<notin> passage (maze s)"
    "wall_between c n \<in> cells (maze s)" "wall_between c n \<notin> passage (maze s)"
    "wall_between c n \<noteq> n"
    "passage (maze (carve s c n)) = insert n (insert (wall_between c n) (passage (maze s)))"
proof -
  let ?m = "maze s" and ?P = "passage (maze s)" and ?w = "wall_between c n"
  from inv cur have st: "stepSize s = 2" and rc: "room c" and cP: "c \<in> ?P"
    and VP: "visited_cells ?m = ?P" and shape: "corridor_shape ?P"
    unfolding maze_inv_def by auto
  have cand: "n \<in> {(fst c, snd c - 2), (fst c + 2, snd c), (fst c, snd c + 2), (fst c - 2, snd c)}"
    using neighbors_candidates [OF nb] st by simp
  have car: "carving c ?w n" using rc cand by (rule carve_geometry)
  have ng: "in_grid ?m n" using neighbors_valid [OF nb] by (simp add: in_grid_def)
  have cg: "in_grid ?m c" using cP passage_subset_cells in_cells by blast
  have wg: "in_grid ?m ?w" using cg ng by (rule wall_between_in_grid)
  show "n \<in> cells ?m" using ng by (simp add: in_cells)
  show "?w \<in> cells ?m" using wg by (simp add: in_cells)
  have "n \<notin> visited_cells ?m"
    using neighbors_unvisited [OF nb] by (simp add: visited_cells_def getCell_def)
  then show nP: "n \<notin> ?P" using VP by simp
  have rn: "room n" and wn: "adjacent ?w n" using car by (simp_all add: carving_def)
  show "?w \<notin> ?P" using shape_adjacent_room [OF shape _ wn rn] nP by blast
  show "?w \<noteq> n" using wn by auto
  show "passage (maze (carve s c n)) = insert n (insert ?w ?P)"
    using passage_carve(1) [of c s n] cg ng wg cP by (simp add: in_cells insert_absorb)
qed

lemma cells_carve [simp]: "cells (maze (carve s c n)) = cells (maze s)"
  by (simp add: carve_def Let_def)

lemma run_measure_step_return:
  "run_measure (snd (step_return s)) = run_measure s"
  by (simp add: run_measure_def)

lemma run_measure_step:
  assumes inv: "maze_inv s" and nc: "\<not> isComplete s" and st: "step rnd s = Inr (result, s')"
  shows "run_measure s' < run_measure s"
  using st
proof (cases rule: step_cases)
  case completed
  with nc show ?thesis by simp
next
  case (carve cur nxt)
  let ?C = "cells (maze s)" and ?P = "passage (maze s)"
  note cp = carve_passage [OF inv carve(2,3)]
  let ?R = "?C - insert nxt (insert (wall_between cur nxt) ?P)"
  have sub: "{nxt, wall_between cur nxt} \<subseteq> ?C - ?P" using cp(1-4) by simp
  have two: "card {nxt, wall_between cur nxt} = 2" using cp(5) by simp
  have "?R = (?C - ?P) - {nxt, wall_between cur nxt}" by blast
  then have "card ?R = card (?C - ?P) - 2"
    using card_Diff_subset [OF _ sub] two by simp
  moreover have "2 \<le> card (?C - ?P)"
    using card_mono [OF _ sub] two by (simp add: finite_cells)
  ultimately have "card (?C - ?P) = card ?R + 2" by simp
  moreover have "stack (carve s cur nxt) = stack s @ [cur]" "isComplete (carve s cur nxt) = isComplete s"
    by (simp_all add: carve_def Let_def)
  ultimately show ?thesis
    unfolding carve(4) run_measure_step_return
    by (simp add: run_measure_def cp(6))
next
  case (backtrack cur)
  from inv backtrack(2) have cP: "cur \<in> passage (maze s)"
    and VP: "visited_cells (maze s) = passage (maze s)"
    and stk: "\<forall>p \<in> set (stack s). room p \<and> p \<in> passage (maze s)"
    unfolding maze_inv_def by auto
  let ?m1 = "setCell (maze s) (fst cur) (snd cur) (cellState False True False True)"
  have m1: "passage ?m1 = passage (maze s)" "visited_cells ?m1 = passage (maze s)"
    using passage_remark [OF cP VP] by simp_all
  have "last (stack s) \<in> passage (maze s)" using stk backtrack(4) by simp
  then have "passage (maze (backtrack s cur)) = passage (maze s)"
    using passage_remark(1) [of "last (stack s)" ?m1] m1 by (simp add: backtrack_def Let_def)
  moreover have "cells (maze (backtrack s cur)) = cells (maze s)"
    "stack (backtrack s cur) = butlast (stack s)" "isComplete (backtrack s cur) = isComplete s"
    by (simp_all add: backtrack_def Let_def)
  ultimately show ?thesis
    unfolding backtrack(5) run_measure_step_return using backtrack(4)
    by (simp add: run_measure_def)
next
  case (finish cur)
  from inv finish(2) have cP: "cur \<in> passage (maze s)"
    and VP: "visited_cells (maze s) = passage (maze s)"
    unfolding maze_inv_def by auto
  have "passage (maze (finish s cur)) = passage (maze s)"
    using passage_remark(1) [OF cP VP] by (simp add: finish_def)
  moreover have "cells (maze (finish s cur)) = cells (maze s)"
    "stack (finish s cur) = stack s" "isComplete (finish s cur)"
    by (simp_all add: finish_def)
  ultimately show ?thesis
    unfolding finish(5) run_measure_step_return using nc
    by (simp add: run_measure_def)
qed

lemma step_no_error:
  assumes "this_current s = Some c" "0 \<le> rnd" "rnd < 1"
  shows "\<exists>result s'. step rnd s = Inr (result, s')"
proof (cases "isComplete s")
  case True
  then show ?thesis by (simp add: step_def)
next
  case False
  let ?n = "length (getUnvisitedNeighbors s (fst c) (snd c))"
  have "0 \<le> \<lfloor>rnd * real ?n\<rfloor>" using assms(2) by simp
  moreover have "\<lfloor>rnd * real ?n\<rfloor> < int ?n" if "0 < ?n"
  proof -
    have "rnd * real ?n < real ?n" using assms(3) that by simp
    then show ?thesis by (simp add: floor_less_iff)
  qed
  ultimately show ?thesis using False assms(1)
    by (auto simp: step_def Let_def split: prod.splits)
qed

lemma generate_loop_terminates:
  assumes "maze_inv s" "\<forall>r \<in> set rnds. 0 \<le> r \<and> r < 1" "run_measure s \<le> length rnds"
  shows "\<exists>n calls' s'. generate_loop rnds cb totalCells processedCells calls s = Some (Inr (n, calls', s'))
           \<and> isComplete s' \<and> maze_inv s'"
  using assms
proof (induction rnds arbitrary: s processedCells calls)
  case Nil
  then have "isComplete s" by (simp add: run_measure_def split: if_splits)
  with Nil show ?case by simp
next
  case (Cons rnd rnds)
  show ?case
  proof (cases "isComplete s")
    case True
    with Cons.prems show ?thesis by simp
  next
    case False
    from Cons.prems(1) obtain c where "this_current s = Some c" unfolding maze_inv_def by blast
    with Cons.prems(2) obtain result s1 where st: "step rnd s = Inr (result, s1)"
      using step_no_error [of s c rnd] by auto
    have i1: "maze_inv s1" using maze_inv_step [OF Cons.prems(1) st] .
    have "run_measure s1 < run_measure s" using run_measure_step [OF Cons.prems(1) False st] .
    with Cons.prems(3) have m1: "run_measure s1 \<le> length rnds" by simp
    have r1: "\<forall>r \<in> set rnds. 0 \<le> r \<and> r < 1" using Cons.prems(2) by simp
    from Cons.IH [OF i1 r1 m1] False st show ?thesis by (simp add: Let_def)
  qed
qed

lemma card_cells: "card (cells m) = nat (width m) * nat (height m)"
  by (simp add: cells_def)

lemma run_measure_initialize:
  assumes "1 < width (maze s)" "1 < height (maze s)"
  shows "run_measure (initialize s) \<le> nat (width (maze s) * height (maze s))"
proof -
  let ?C = "cells (maze s)" and ?P = "passage (maze (initialize s))"
  have c: "(1, 1) \<in> ?C" using assms by (simp add: cells_def)
  then have "(1, 1) \<in> ?P" by (simp add: initialize_def passage_setCell)
  with c have "?C - ?P \<subset> ?C" by blast
  then have "card (?C - ?P) < card ?C" by (intro psubset_card_mono) (simp_all add: finite_cells)
  moreover have "run_measure (initialize s) = card (?C - ?P) + 1"
    by (simp add: run_measure_def initialize_def)
  moreover have "card ?C = nat (width (maze s) * height (maze s))"
    using assms by (simp add: card_cells nat_mult_distrib)
  ultimately show ?thesis by simp
qed

lemma corridors_count: "card (passage_edges m) = 2 * card (corridors m)"
proof -
  let ?E = "passage_edges m" and ?K = "corridors m"
  have fin: "finite ?E"
    unfolding passage_edges_def
    using adjacent_pairs_subset [of "passage m"] finite_passage [of m]
    by (meson finite_SigmaI finite_subset)
  have finK: "finite ?K" using fin by (simp add: corridors_def)
  have sym: "(q, p) \<in> ?E" if "(p, q) \<in> ?E" for p q
    using that sym_adjacent_pairs [of "passage m"] unfolding passage_edges_def sym_def by blast
  have "?E = ?K \<union> ?K\<inverse>"
  proof (rule set_eqI)
    fix e :: "coord \<times> coord"
    obtain a b c d where e: "e = ((a, b), (c, d))" by (metis prod.collapse)
    show "e \<in> ?E \<longleftrightarrow> e \<in> ?K \<union> ?K\<inverse>"
    proof
      assume i: "e \<in> ?E"
      then have "adjacent (a, b) (c, d)" by (simp add: e passage_edges_def adjacent_pairs_def)
      then have "(c, d) = (a + 1, b) \<or> (c, d) = (a, b + 1) \<or> (a, b) = (c + 1, d) \<or> (a, b) = (c, d + 1)"
        unfolding adjacent_pair by auto
      with i sym [of "(a, b)" "(c, d)"] show "e \<in> ?K \<union> ?K\<inverse>"
        unfolding e corridors_def by auto
    next
      assume "e \<in> ?K \<union> ?K\<inverse>"
      then show "e \<in> ?E" using sym [of "(c, d)" "(a, b)"] unfolding e corridors_def by auto
    qed
  qed
  moreover have "?K \<inter> ?K\<inverse> = {}"
    by (auto simp: corridors_def)
  moreover have "card (?K\<inverse>) = card ?K" by (rule card_inverse)
  ultimately show ?thesis
    using card_Un_disjoint [of ?K "?K\<inverse>"] finK by simp
qed

section \<open>The maze is a tree\<close>

text \<open>
  Claim C1. Take a grid of walls, none visited, whose width and height exceed 1 (every odd size
  from 3 on; the parity is not needed), any sequence of random draws in [0,1), and enough of
  them for width * height iterations. Then \<^verbatim>\<open>generate\<close>, that is \<^verbatim>\<open>initialize()\<close>
  followed by \<^verbatim>\<open>step()\<close> until \<^verbatim>\<open>isComplete\<close>, returns, and in the grid it leaves the
  visited cells are the passage cells, any two of them are joined by exactly one simple path of
  adjacent passage cells (so the passage graph is connected and has no cycle), and the number of
  corridors is the number of visited cells minus one. Counted on the rooms instead, the cleared
  wall cells number one less than the visited rooms.
\<close>

theorem perfect_maze:
  assumes "1 < width m" "1 < height m"
    and "\<forall>x y. isValidCoordinate x y (width m) (height m) \<longrightarrow>
           wall (getCell m x y) \<and> \<not> visited (getCell m x y)"
    and "\<forall>r \<in> set rnds. 0 \<le> r \<and> r < 1"
    and "nat (width m * height m) \<le> length rnds"
  shows "\<exists>stats calls s'.
           generate rnds cb (constructor m None) = Some (Inr (stats, calls, s')) \<and>
           isComplete s' \<and>
           visited_cells (maze s') = passage (maze s') \<and>
           (\<forall>p \<in> visited_cells (maze s'). \<forall>q \<in> visited_cells (maze s').
              (\<exists>!xs. simple_path (passage_edges (maze s')) p q xs) \<and>
              (p, q) \<in> (passage_edges (maze s'))\<^sup>*) \<and>
           card (corridors (maze s')) + 1 = card (visited_cells (maze s')) \<and>
           card {p \<in> passage (maze s'). \<not> room p} + 1 = card {p \<in> passage (maze s'). room p}"
proof -
  let ?s0 = "constructor m None"
  let ?t = "(width (maze (initialize ?s0)) * height (maze (initialize ?s0))) div 4"
  have wh: "maze ?s0 = m" by (simp add: constructor_def)
  have inv0: "maze_inv (initialize ?s0)" using assms(1-3) by (rule maze_inv_initialize)
  have "run_measure (initialize ?s0) \<le> nat (width m * height m)"
    using run_measure_initialize [of ?s0] assms(1,2) unfolding wh by simp
  with assms(5) have "run_measure (initialize ?s0) \<le> length rnds" by simp
  from generate_loop_terminates [OF inv0 assms(4) this, of cb ?t 0 "[]"]
  obtain n calls s' where
    l: "generate_loop rnds cb ?t 0 [] (initialize ?s0) = Some (Inr (n, calls, s'))"
    and c: "isComplete s'" and inv: "maze_inv s'" by blast
  let ?stats = "\<lparr> algorithm = ''recursive'', steps = stepCount s', cellsProcessed = n \<rparr>"
  have g: "generate rnds cb ?s0 = Some (Inr (?stats, calls, s'))"
    using l by (simp add: generate_def Let_def)
  from inv have VP: "visited_cells (maze s') = passage (maze s')"
    and U: "unique_paths (passage (maze s')) (passage_edges (maze s'))"
    and cnt: "card (passage_edges (maze s')) + 2 = 2 * card (passage (maze s'))"
    and rw: "card {p \<in> passage (maze s'). \<not> room p} + 1 = card {p \<in> passage (maze s'). room p}"
    unfolding maze_inv_def by auto
  have paths: "(\<exists>!xs. simple_path (passage_edges (maze s')) p q xs) \<and>
               (p, q) \<in> (passage_edges (maze s'))\<^sup>*"
    if "p \<in> visited_cells (maze s')" "q \<in> visited_cells (maze s')" for p q
  proof -
    from U that have ex: "\<exists>!xs. simple_path (passage_edges (maze s')) p q xs"
      unfolding unique_paths_def VP by blast
    then obtain xs where "simple_path (passage_edges (maze s')) p q xs" by blast
    then have "(p, q) \<in> (passage_edges (maze s'))\<^sup>*" by (rule simple_path_rtrancl)
    with ex show ?thesis by blast
  qed
  have "card (corridors (maze s')) + 1 = card (visited_cells (maze s'))"
    using cnt corridors_count [of "maze s'"] VP by simp
  with g c VP paths rw show ?thesis by blast
qed

theorem perfect_maze_witness:
  "1 < width (wallGrid 5 5) \<and> 1 < height (wallGrid 5 5) \<and>
   nat (width (wallGrid 5 5) * height (wallGrid 5 5)) \<le> length (replicate 25 (1 / 2 :: real)) \<and>
   (\<exists>stats calls s'.
      generate (replicate 25 (1 / 2)) False (constructor (wallGrid 5 5) None) = Some (Inr (stats, calls, s')) \<and>
      isComplete s' \<and> stepCount s' = 7 \<and>
      card (corridors (maze s')) + 1 = card (visited_cells (maze s')))"
proof -
  have h: "1 < width (wallGrid 5 5)" "1 < height (wallGrid 5 5)"
    "\<forall>x y. isValidCoordinate x y (width (wallGrid 5 5)) (height (wallGrid 5 5)) \<longrightarrow>
       wall (getCell (wallGrid 5 5) x y) \<and> \<not> visited (getCell (wallGrid 5 5) x y)"
    "\<forall>r \<in> set (replicate 25 (1 / 2 :: real)). 0 \<le> r \<and> r < 1"
    "nat (width (wallGrid 5 5) * height (wallGrid 5 5)) \<le> length (replicate 25 (1 / 2 :: real))"
    by (simp_all add: wallGrid_def getCell_def)
  from perfect_maze [OF h, of False] obtain stats calls s' where
    g: "generate (replicate 25 (1 / 2)) False (constructor (wallGrid 5 5) None) = Some (Inr (stats, calls, s'))"
    and p: "isComplete s'" "card (corridors (maze s')) + 1 = card (visited_cells (maze s'))"
    by blast
  have "\<exists>stats calls s'.
      generate (replicate 25 (1 / 2)) False (constructor (wallGrid 5 5) None) = Some (Inr (stats, calls, s')) \<and>
      stepCount s' = 7"
    by (simp add: generate_def rb_defs eval_nat_numeral)
  with g have "stepCount s' = 7" by auto
  with g p h show ?thesis by blast
qed

end
